theory Spec2Isabelle
  imports Complex_Main "HOL-Library.AList" "HOL-Library.Char_ord" "HOL-Library.List_Lexorder"
    "HOL-Library.Product_Lexorder"
begin

section \<open>Python values and exceptions\<close>

text \<open>
  The two modules under verification are \<^verbatim>\<open>backend/smart_sbom_graph.py\<close> (class
  \<^verbatim>\<open>SmartSBOMGraph\<close>, a \<^verbatim>\<open>networkx.DiGraph\<close> of projects, components and
  vulnerabilities) and \<^verbatim>\<open>backend/universal_upgrade.py\<close> (class
  \<^verbatim>\<open>UniversalUpgradeEngine\<close>, the upgrade resolver on top of \<^verbatim>\<open>semver\<close>).

  Attribute values stored on nodes and edges are strings or lists of strings. A Python
  \<^verbatim>\<open>dict\<close> keeps its keys in insertion order, so it is an association list;
  \<^verbatim>\<open>d.update(kw)\<close> overwrites a present key in place and appends an absent one, which
  is \<^const>\<open>AList.update\<close> folded over the keyword arguments in the order they are written.
\<close>

datatype attr = Str string | StrList "string list"

type_synonym attrs = "(string \<times> attr) list"

datatype exn =
  NetworkXError | NodeNotFound | NetworkXNoPath | KeyError | EOFError | ValueError string

definition dict_update :: "attrs \<Rightarrow> attrs \<Rightarrow> attrs" where
  "dict_update d kw = fold (\<lambda>(k, v). AList.update k v) kw d"

definition dict_get :: "attrs \<Rightarrow> string \<Rightarrow> attr option" where
  "dict_get d k = map_of d k"

section \<open>The directed graph of networkx\<close>

text \<open>
  \<^verbatim>\<open>networkx.DiGraph\<close> holds \<^verbatim>\<open>_node\<close> (node to attribute dict) and the adjacency
  dicts \<^verbatim>\<open>_succ\<close> and \<^verbatim>\<open>_pred\<close> (node to neighbour to the shared edge attribute dict).
  The model keeps the node table in insertion order and one edge table in global insertion
  order; the successors of \<open>u\<close> (the keys of \<^verbatim>\<open>_succ[u]\<close>) and the predecessors of
  \<open>v\<close> (the keys of \<^verbatim>\<open>_pred[v]\<close>) are the matching rows of the edge table, in the order
  the library iterates them.
\<close>

record digraph =
  node_tab :: "(string \<times> attrs) list"
  edge_tab :: "((string \<times> string) \<times> attrs) list"

definition empty_graph :: digraph where
  "empty_graph = \<lparr>node_tab = [], edge_tab = []\<rparr>"

definition has_node :: "digraph \<Rightarrow> string \<Rightarrow> bool" where
  "has_node G n = (map_of (node_tab G) n \<noteq> None)"

definition has_edge :: "digraph \<Rightarrow> string \<Rightarrow> string \<Rightarrow> bool" where
  "has_edge G u v = (map_of (edge_tab G) (u, v) \<noteq> None)"

text \<open>\<^verbatim>\<open>G.nodes()\<close> iterates the node ids in insertion order.\<close>

definition nodes :: "digraph \<Rightarrow> string list" where
  "nodes G = map fst (node_tab G)"

text \<open>\<^verbatim>\<open>G.nodes[n]\<close> raises \<^verbatim>\<open>KeyError\<close> for a node that is not in the graph.\<close>

definition nodes_getitem :: "digraph \<Rightarrow> string \<Rightarrow> exn + attrs" where
  "nodes_getitem G n = (case map_of (node_tab G) n of None \<Rightarrow> Inl KeyError | Some a \<Rightarrow> Inr a)"

definition edges_getitem :: "digraph \<Rightarrow> string \<Rightarrow> string \<Rightarrow> exn + attrs" where
  "edges_getitem G u v =
     (case map_of (edge_tab G) (u, v) of None \<Rightarrow> Inl KeyError | Some a \<Rightarrow> Inr a)"

text \<open>
  \<^verbatim>\<open>G.add_node(n, **attr)\<close>: a new node gets a fresh attribute dict updated with the
  keyword arguments; an existing node has its dict updated in place.
\<close>

definition add_node :: "string \<Rightarrow> attrs \<Rightarrow> digraph \<Rightarrow> digraph" where
  "add_node n kw G =
     (case map_of (node_tab G) n of
        None \<Rightarrow> G\<lparr>node_tab := node_tab G @ [(n, dict_update [] kw)]\<rparr>
      | Some a \<Rightarrow> G\<lparr>node_tab := AList.update n (dict_update a kw) (node_tab G)\<rparr>)"

text \<open>
  \<^verbatim>\<open>G.add_edge(u, v, **attr)\<close>: a missing endpoint is created with an empty attribute
  dict (first \<open>u\<close>, then \<open>v\<close>); the edge's dict is the existing one or a fresh one,
  updated with the keyword arguments.
\<close>

definition ensure_node :: "string \<Rightarrow> digraph \<Rightarrow> digraph" where
  "ensure_node n G = (if has_node G n then G else G\<lparr>node_tab := node_tab G @ [(n, [])]\<rparr>)"

definition add_edge :: "string \<Rightarrow> string \<Rightarrow> attrs \<Rightarrow> digraph \<Rightarrow> digraph" where
  "add_edge u v kw G =
     (let G' = ensure_node v (ensure_node u G);
          datadict = (case map_of (edge_tab G') (u, v) of None \<Rightarrow> [] | Some a \<Rightarrow> a)
      in G'\<lparr>edge_tab := AList.update (u, v) (dict_update datadict kw) (edge_tab G')\<rparr>)"

definition successors :: "digraph \<Rightarrow> string \<Rightarrow> string list" where
  "successors G u = map (snd \<circ> fst) (filter (\<lambda>e. fst (fst e) = u) (edge_tab G))"

definition predecessors :: "digraph \<Rightarrow> string \<Rightarrow> string list" where
  "predecessors G v = map (fst \<circ> fst) (filter (\<lambda>e. snd (fst e) = v) (edge_tab G))"

text \<open>
  \<^verbatim>\<open>nx.shortest_path(G, source, target)\<close> raises \<^verbatim>\<open>NodeNotFound\<close> when an endpoint
  is not a node, raises \<^verbatim>\<open>NetworkXNoPath\<close> when the target cannot be reached, and otherwise
  returns the node list of one path with the fewest edges (the library promises no more
  about which one). The model searches breadth first: \<open>extend_walks\<close> lengthens every walk
  of the current layer by one edge, and \<open>find_walk\<close> returns the first walk of the first
  layer that ends at the target. A walk without a repeated edge has at most as many edges
  as the graph, which bounds the number of layers. Where several paths have the fewest
  edges, the library's bidirectional search and this forward search need not choose the
  same one: the properties below rely only on the result being a shortest path, and the
  path is unique wherever more is said about it.
\<close>

definition extend_walks :: "digraph \<Rightarrow> string list list \<Rightarrow> string list list" where
  "extend_walks G ws = concat (map (\<lambda>w. map (\<lambda>v. w @ [v]) (successors G (last w))) ws)"

fun find_walk :: "digraph \<Rightarrow> string list list \<Rightarrow> string \<Rightarrow> nat \<Rightarrow> string list option" where
  "find_walk G ws t 0 = find (\<lambda>w. last w = t) ws"
| "find_walk G ws t (Suc n) =
     (case find (\<lambda>w. last w = t) ws of
        Some w \<Rightarrow> Some w
      | None \<Rightarrow> find_walk G (extend_walks G ws) t n)"

definition shortest_path :: "digraph \<Rightarrow> string \<Rightarrow> string \<Rightarrow> exn + string list" where
  "shortest_path G s t =
     (if \<not> has_node G s then Inl NodeNotFound
      else if \<not> has_node G t then Inl NodeNotFound
      else case find_walk G [[s]] t (length (edge_tab G)) of
             None \<Rightarrow> Inl NetworkXNoPath
           | Some p \<Rightarrow> Inr p)"

text \<open>
  \<^verbatim>\<open>nx.has_path\<close> is \<^verbatim>\<open>shortest_path\<close> with \<^verbatim>\<open>NetworkXNoPath\<close> caught and turned into
  \<^verbatim>\<open>False\<close>; any other exception passes through.
\<close>

definition has_path :: "digraph \<Rightarrow> string \<Rightarrow> string \<Rightarrow> exn + bool" where
  "has_path G s t =
     (case shortest_path G s t of
        Inl e \<Rightarrow> (if e = NetworkXNoPath then Inr False else Inl e)
      | Inr p \<Rightarrow> Inr True)"

text \<open>
  \<^verbatim>\<open>nx.descendants(G, source)\<close> raises \<^verbatim>\<open>NetworkXError\<close> (``The node ... is not in the
  graph'') when the source is not a node; otherwise it returns the set of nodes reachable
  from the source along one or more edges, without the source itself. Note the class of
  the exception: \<^verbatim>\<open>NetworkXError\<close> and \<^verbatim>\<open>NodeNotFound\<close> are siblings below
  \<^verbatim>\<open>NetworkXException\<close>, neither is a subclass of the other.
\<close>

definition reach_list :: "digraph \<Rightarrow> string \<Rightarrow> string list" where
  "reach_list G source =
     concat (map (\<lambda>k. map last ((extend_walks G ^^ k) [[source]]))
               [1..<Suc (length (edge_tab G))])"

definition descendants :: "digraph \<Rightarrow> string \<Rightarrow> exn + string set" where
  "descendants G source =
     (if \<not> has_node G source then Inl NetworkXError
      else Inr (set (reach_list G source) - {source}))"

text \<open>
  \<^verbatim>\<open>G.edges(nbunch)\<close> walks the nodes of \<^verbatim>\<open>nbunch\<close> that are in the graph, in the order
  \<^verbatim>\<open>nbunch\<close> yields them, and for each node its out-edges in insertion order.
\<close>

definition edges_of :: "digraph \<Rightarrow> string list \<Rightarrow> (string \<times> string) list" where
  "edges_of G nbunch =
     concat (map (\<lambda>n. map (Pair n) (successors G n)) (filter (has_node G) nbunch))"

section \<open>SmartSBOMGraph\<close>

subsection \<open>Node names\<close>

text \<open>
  The project node is \<^verbatim>\<open>f'project_{project_id}'\<close> for an \<^verbatim>\<open>int\<close> id: the decimal
  rendering of the integer after the prefix.
\<close>

fun str_of_nat :: "nat \<Rightarrow> string" where
  "str_of_nat n =
     (if n < 10 then [''0123456789'' ! n]
      else str_of_nat (n div 10) @ [''0123456789'' ! (n mod 10)])"

declare str_of_nat.simps [simp del]

definition str_of_int :: "int \<Rightarrow> string" where
  "str_of_int i = (if i < 0 then CHR ''-'' # str_of_nat (nat (- i)) else str_of_nat (nat i))"

definition project_node :: "int \<Rightarrow> string" where
  "project_node project_id = ''project_'' @ str_of_int project_id"

subsection \<open>generate_sbom\<close>

record component =
  name :: string
  version :: string
  ctype :: string
  vulnerabilities :: "string list"

text \<open>The sample component list that \<^verbatim>\<open>generate_sbom\<close> ingests.\<close>

definition components :: "component list" where
  "components =
     [\<lparr>name = ''requests'', version = ''2.28.1'', ctype = ''library'',
       vulnerabilities = [''CVE-2023-1234'']\<rparr>,
      \<lparr>name = ''flask'', version = ''2.3.0'', ctype = ''framework'', vulnerabilities = []\<rparr>,
      \<lparr>name = ''sqlalchemy'', version = ''1.4.47'', ctype = ''library'',
       vulnerabilities = [''CVE-2023-5678'']\<rparr>,
      \<lparr>name = ''jinja2'', version = ''3.1.2'', ctype = ''template'', vulnerabilities = []\<rparr>,
      \<lparr>name = ''werkzeug'', version = ''2.3.0'', ctype = ''library'',
       vulnerabilities = [''CVE-2023-9012'']\<rparr>]"

text \<open>The body of the inner loop over \<^verbatim>\<open>comp['vulnerabilities']\<close>.\<close>

definition ingest_vuln :: "string \<Rightarrow> digraph \<Rightarrow> string \<Rightarrow> digraph" where
  "ingest_vuln node_id G vuln_id =
     (let vuln_node = ''vuln_'' @ vuln_id;
          G1 = (if \<not> has_node G vuln_node
                then add_node vuln_node
                       [(''type'', Str ''vulnerability''), (''id'', Str vuln_id),
                        (''severity'',
                         Str (if vuln_id = ''CVE-2023-1234'' then ''HIGH'' else ''MEDIUM''))] G
                else G)
      in add_edge node_id vuln_node [(''relationship'', Str ''AFFECTED_BY'')] G1)"

text \<open>The body of the loop over the components.\<close>

definition ingest_component :: "string \<Rightarrow> digraph \<Rightarrow> component \<Rightarrow> digraph" where
  "ingest_component proj G cmp =
     (let node_id = name cmp @ ''_'' @ version cmp;
          G1 = add_node node_id
                 [(''type'', Str ''component''), (''name'', Str (name cmp)),
                  (''version'', Str (version cmp)), (''vulns'', StrList (vulnerabilities cmp))] G;
          G2 = add_edge proj node_id [(''relationship'', Str ''DEPENDS_ON'')] G1
      in foldl (ingest_vuln node_id) G2 (vulnerabilities cmp))"

text \<open>
  Lines 50 to 76 for an arbitrary component list: the project node, then every component.
\<close>

definition ingest :: "digraph \<Rightarrow> int \<Rightarrow> string \<Rightarrow> component list \<Rightarrow> digraph" where
  "ingest G project_id repo_url comps =
     foldl (ingest_component (project_node project_id))
       (add_node (project_node project_id)
          [(''type'', Str ''project''), (''url'', Str repo_url),
           (''timestamp'', Str ''2024-01-01'')] G)
       comps"

text \<open>
  The graph that \<^verbatim>\<open>generate_sbom(project_id, repo_url)\<close> leaves in \<^verbatim>\<open>self.graph\<close>.
  (The method then writes the snapshot, inserts a row into SQLite and returns a status
  dict; none of these touches the graph.)
\<close>

definition generate_sbom :: "digraph \<Rightarrow> int \<Rightarrow> string \<Rightarrow> digraph" where
  "generate_sbom G project_id repo_url = ingest G project_id repo_url components"

subsection \<open>The snapshot file\<close>

text \<open>
  \<^verbatim>\<open>_save_graph\<close> is \<^verbatim>\<open>with open(self.graph_file, 'wb') as f: pickle.dump(self.graph, f)\<close>
  and \<^verbatim>\<open>_load_graph\<close> reads the file back with \<^verbatim>\<open>pickle.load\<close> when it exists. The disk
  maps a path to the content of the file there. Of a content only this is modelled: it is
  either the complete pickle stream of a graph, or a file that was cut short (empty or a
  proper prefix of a stream), from which \<^verbatim>\<open>pickle.load\<close> raises \<^verbatim>\<open>EOFError\<close>.

  Opening a file with mode \<^verbatim>\<open>'wb'\<close> creates it or truncates it to length zero at once;
  \<^verbatim>\<open>pickle.dump\<close> then writes the stream, and the file is complete when the \<^verbatim>\<open>with\<close>
  block closes it. \<open>save_graph_states\<close> lists the states of the disk after these two
  effects, in order; \<open>save_graph\<close> is the state after the method has returned.
\<close>

datatype file_content = Snapshot digraph | Truncated

type_synonym disk = "string \<Rightarrow> file_content option"

definition graph_file :: string where
  "graph_file = ''database/graph_store.pickle''"

definition open_wb :: "string \<Rightarrow> disk \<Rightarrow> disk" where
  "open_wb path d = d(path \<mapsto> Truncated)"

definition pickle_dump :: "digraph \<Rightarrow> string \<Rightarrow> disk \<Rightarrow> disk" where
  "pickle_dump G path d = d(path \<mapsto> Snapshot G)"

definition save_graph_states :: "digraph \<Rightarrow> disk \<Rightarrow> disk list" where
  "save_graph_states G d =
     (let d1 = open_wb graph_file d;
          d2 = pickle_dump G graph_file d1
      in [d1, d2])"

definition save_graph :: "digraph \<Rightarrow> disk \<Rightarrow> disk" where
  "save_graph G d = last (save_graph_states G d)"

text \<open>
  \<^verbatim>\<open>_load_graph\<close>: without a file the graph in memory stays as it is; otherwise it is
  replaced by what \<^verbatim>\<open>pickle.load\<close> returns.
\<close>

definition load_graph :: "disk \<Rightarrow> digraph \<Rightarrow> exn + digraph" where
  "load_graph d G =
     (case d graph_file of
        None \<Rightarrow> Inr G
      | Some Truncated \<Rightarrow> Inl EOFError
      | Some (Snapshot S) \<Rightarrow> Inr S)"

subsection \<open>query_reachable_vulnerabilities\<close>

record entry =
  vulnerability :: "attr option"
  component :: "attr option"
  version_of :: "attr option"
  path :: "string list"

text \<open>
  The loop over \<^verbatim>\<open>affected_components\<close> inside the \<^verbatim>\<open>try\<close>. The result list is shared
  with the handler, so an exception leaves with the entries appended so far.
\<close>

fun scan_components ::
  "digraph \<Rightarrow> string \<Rightarrow> string \<Rightarrow> string list \<Rightarrow> entry list \<Rightarrow> (exn \<times> entry list) + entry list"
where
  "scan_components G src node [] acc = Inr acc"
| "scan_components G src node (cmp # comps) acc =
     (case has_path G src cmp of
        Inl e \<Rightarrow> Inl (e, acc)
      | Inr b \<Rightarrow>
          if b then
            (case nodes_getitem G node of
               Inl e \<Rightarrow> Inl (e, acc)
             | Inr na \<Rightarrow>
                (case nodes_getitem G cmp of
                   Inl e \<Rightarrow> Inl (e, acc)
                 | Inr ca \<Rightarrow>
                    (case shortest_path G src cmp of
                       Inl e \<Rightarrow> Inl (e, acc)
                     | Inr p \<Rightarrow>
                         scan_components G src node comps
                           (acc @ [\<lparr>vulnerability = dict_get na ''id'',
                                    component = dict_get ca ''name'',
                                    version_of = dict_get ca ''version'',
                                    path = p\<rparr>]))))
          else scan_components G src node comps acc)"

text \<open>
  The loop over \<^verbatim>\<open>self.graph.nodes()\<close>: a node whose \<^verbatim>\<open>type\<close> is
  \<^verbatim>\<open>'vulnerability'\<close> has its predecessors scanned; \<^verbatim>\<open>NetworkXNoPath\<close> and
  \<^verbatim>\<open>NodeNotFound\<close> are caught (\<^verbatim>\<open>continue\<close>), anything else leaves the method.
\<close>

fun scan_nodes :: "digraph \<Rightarrow> string \<Rightarrow> string list \<Rightarrow> entry list \<Rightarrow> exn + entry list" where
  "scan_nodes G src [] acc = Inr acc"
| "scan_nodes G src (node # rest) acc =
     (case nodes_getitem G node of
        Inl e \<Rightarrow> Inl e
      | Inr na \<Rightarrow>
          if dict_get na ''type'' = Some (Str ''vulnerability'') then
            (case scan_components G src node (predecessors G node) acc of
               Inr acc' \<Rightarrow> scan_nodes G src rest acc'
             | Inl (e, acc') \<Rightarrow>
                 if e = NetworkXNoPath \<or> e = NodeNotFound then scan_nodes G src rest acc'
                 else Inl e)
          else scan_nodes G src rest acc)"

definition query_reachable_vulnerabilities ::
  "digraph \<Rightarrow> int \<Rightarrow> string \<Rightarrow> exn + entry list"
where
  "query_reachable_vulnerabilities G project_id vulnerable_component =
     scan_nodes G (project_node project_id) (nodes G) []"

subsection \<open>get_graph_data\<close>

text \<open>
  The D3 node and link dicts. \<^verbatim>\<open>.get('type', 'unknown')\<close>, \<^verbatim>\<open>.get('vulns', [])\<close> and
  \<^verbatim>\<open>.get('relationship', 'unknown')\<close> fall back to their defaults.
\<close>

record node_item =
  node_id :: string
  node_name :: string
  node_type :: attr
  node_vulns :: attr

record link_item =
  source :: string
  target :: string
  relationship :: attr

record graph_data =
  gd_nodes :: "node_item list"
  gd_links :: "link_item list"

definition get_default :: "attrs \<Rightarrow> string \<Rightarrow> attr \<Rightarrow> attr" where
  "get_default d k dflt = (case dict_get d k of None \<Rightarrow> dflt | Some v \<Rightarrow> v)"

text \<open>The two loops of the \<^verbatim>\<open>try\<close> block; an exception leaves with the list built so far.\<close>

fun collect_nodes ::
  "digraph \<Rightarrow> string list \<Rightarrow> node_item list \<Rightarrow> (exn \<times> node_item list) + node_item list"
where
  "collect_nodes G [] acc = Inr acc"
| "collect_nodes G (node # rest) acc =
     (case nodes_getitem G node of
        Inl e \<Rightarrow> Inl (e, acc)
      | Inr a \<Rightarrow>
          collect_nodes G rest
            (acc @ [\<lparr>node_id = node, node_name = node,
                     node_type = get_default a ''type'' (Str ''unknown''),
                     node_vulns = get_default a ''vulns'' (StrList [])\<rparr>]))"

fun collect_links ::
  "digraph \<Rightarrow> (string \<times> string) list \<Rightarrow> link_item list \<Rightarrow> (exn \<times> link_item list) + link_item list"
where
  "collect_links G [] acc = Inr acc"
| "collect_links G ((u, v) # rest) acc =
     (case edges_getitem G u v of
        Inl e \<Rightarrow> Inl (e, acc)
      | Inr a \<Rightarrow>
          collect_links G rest
            (acc @ [\<lparr>source = u, target = v,
                     relationship = get_default a ''relationship'' (Str ''unknown'')\<rparr>]))"

text \<open>
  \<^verbatim>\<open>except (nx.NodeNotFound, KeyError): pass\<close>: these two exceptions end the \<^verbatim>\<open>try\<close>
  block and the lists built so far are returned; any other exception leaves the method.
\<close>

definition handle_lookup_errors ::
  "exn \<Rightarrow> node_item list \<Rightarrow> link_item list \<Rightarrow> exn + graph_data"
where
  "handle_lookup_errors e ns ls =
     (if e = NodeNotFound \<or> e = KeyError then Inr \<lparr>gd_nodes = ns, gd_links = ls\<rparr> else Inl e)"

text \<open>
  \<^verbatim>\<open>subgraph_nodes\<close> is a Python \<^verbatim>\<open>set\<close> of strings. Python iterates a set in the order
  of its hash table, and string hashes are salted per process, so the order is not
  determined by the program: it is the parameter \<open>set_iter\<close>. The set is iterated twice
  (the node loop and \<^verbatim>\<open>G.edges(subgraph_nodes)\<close>) without being changed in between, so
  both iterations see the same order.
\<close>

definition get_graph_data :: "(string set \<Rightarrow> string list) \<Rightarrow> digraph \<Rightarrow> int \<Rightarrow> exn + graph_data" where
  "get_graph_data set_iter G project_id =
     (case descendants G (project_node project_id) of
        Inl e \<Rightarrow> handle_lookup_errors e [] []
      | Inr ds \<Rightarrow>
          (let subgraph_nodes = insert (project_node project_id) ds;
               order = set_iter subgraph_nodes
           in case collect_nodes G order [] of
                Inl (e, ns) \<Rightarrow> handle_lookup_errors e ns []
              | Inr ns \<Rightarrow>
                  (case collect_links G (edges_of G order) [] of
                     Inl (e, ls) \<Rightarrow> handle_lookup_errors e ns ls
                   | Inr ls \<Rightarrow> Inr \<lparr>gd_nodes = ns, gd_links = ls\<rparr>)))"

section \<open>The semver library\<close>

text \<open>
  \<^verbatim>\<open>universal_upgrade.py\<close> calls \<^verbatim>\<open>semver.compare\<close> and \<^verbatim>\<open>semver.Version.parse\<close>.
  The model follows the library on ASCII strings.

  \<^verbatim>\<open>Version.parse\<close> matches the regular expression of the library: three numeric
  identifiers separated by dots (no leading zeros), an optional pre-release after \<^verbatim>\<open>-\<close>
  (dot-separated identifiers of letters, digits and hyphens, numeric ones without leading
  zeros), an optional build after \<^verbatim>\<open>+\<close> (dot-separated non-empty identifiers). The
  pattern ends with \<^verbatim>\<open>$\<close>, which in Python also matches before one final newline.
  A string that does not match raises \<^verbatim>\<open>ValueError("<s> is not valid SemVer string")\<close>.
\<close>

record version =
  major :: nat
  minor :: nat
  patch :: nat
  prerelease :: "string option"
  build :: "string option"

definition is_digit :: "char \<Rightarrow> bool" where
  "is_digit c = (c \<in> set ''0123456789'')"

definition is_idchar :: "char \<Rightarrow> bool" where
  "is_idchar c =
     (c \<in> set ''0123456789abcdefghijklmnopqrstuvwxyzABCDEFGHIJKLMNOPQRSTUVWXYZ-'')"

definition digit_val :: "char \<Rightarrow> nat" where
  "digit_val c = length (takeWhile (\<lambda>d. d \<noteq> c) ''0123456789'')"

definition nat_of_digits :: "string \<Rightarrow> nat" where
  "nat_of_digits s = foldl (\<lambda>n c. 10 * n + digit_val c) 0 s"

text \<open>\<^verbatim>\<open>s.split(c)\<close>: the pieces between the separators, at least one piece.\<close>

fun split_on :: "char \<Rightarrow> string \<Rightarrow> string list" where
  "split_on c [] = [[]]"
| "split_on c (x # xs) =
     (if x = c then [] # split_on c xs
      else (case split_on c xs of [] \<Rightarrow> [[x]] | p # ps \<Rightarrow> (x # p) # ps))"

definition numeric_id :: "string \<Rightarrow> bool" where
  "numeric_id s = (s \<noteq> [] \<and> list_all is_digit s \<and> (s = ''0'' \<or> hd s \<noteq> CHR ''0''))"

definition prerelease_id :: "string \<Rightarrow> bool" where
  "prerelease_id s =
     (s \<noteq> [] \<and> list_all is_idchar s \<and>
      (if list_all is_digit s then s = ''0'' \<or> hd s \<noteq> CHR ''0'' else True))"

definition build_id :: "string \<Rightarrow> bool" where
  "build_id s = (s \<noteq> [] \<and> list_all is_idchar s)"

definition parse :: "string \<Rightarrow> version option" where
  "parse s0 =
     (let s = (if s0 \<noteq> [] \<and> last s0 = CHR 0x0A then butlast s0 else s0);
          core = takeWhile (\<lambda>c. c \<noteq> CHR ''-'' \<and> c \<noteq> CHR ''+'') s;
          rest = dropWhile (\<lambda>c. c \<noteq> CHR ''-'' \<and> c \<noteq> CHR ''+'') s;
          pre = (case rest of [] \<Rightarrow> None
                 | c # r \<Rightarrow> if c = CHR ''-'' then Some (takeWhile (\<lambda>c. c \<noteq> CHR ''+'') r)
                             else None);
          rest2 = (case rest of [] \<Rightarrow> []
                   | c # r \<Rightarrow> if c = CHR ''-'' then dropWhile (\<lambda>c. c \<noteq> CHR ''+'') r
                               else rest);
          bld = (case rest2 of [] \<Rightarrow> None | c # r \<Rightarrow> Some r)
      in case split_on CHR ''.'' core of
           [a, b, c] \<Rightarrow>
             if numeric_id a \<and> numeric_id b \<and> numeric_id c \<and>
                (case pre of None \<Rightarrow> True
                 | Some p \<Rightarrow> list_all prerelease_id (split_on CHR ''.'' p)) \<and>
                (case bld of None \<Rightarrow> True
                 | Some b \<Rightarrow> list_all build_id (split_on CHR ''.'' b))
             then Some \<lparr>major = nat_of_digits a, minor = nat_of_digits b,
                        patch = nat_of_digits c, prerelease = pre, build = bld\<rparr>
             else None
         | _ \<Rightarrow> None)"

text \<open>
  \<^verbatim>\<open>Version.compare\<close>: major, minor and patch are compared as a tuple of integers. If
  they are equal, a version without pre-release is greater than one with a pre-release, and
  two pre-releases are compared identifier by identifier: numeric identifiers as integers,
  a numeric identifier below an alphanumeric one, alphanumeric identifiers as strings
  (by code point), and when one list of identifiers is a prefix of the other the shorter
  one is smaller. (At that last step the library compares the lengths of the two
  pre-release strings; with all paired identifiers equal this orders them as the numbers
  of identifiers do.) The build is ignored.
\<close>

datatype ident = Num nat | Alpha string

definition convert :: "string \<Rightarrow> ident" where
  "convert text = (if text \<noteq> [] \<and> list_all is_digit text then Num (nat_of_digits text)
                   else Alpha text)"

definition split_key :: "string \<Rightarrow> ident list" where
  "split_key k = map convert (split_on CHR ''.'' k)"

definition cmp :: "'a::linorder \<Rightarrow> 'a \<Rightarrow> int" where
  "cmp a b = (if a < b then - 1 else if b < a then 1 else 0)"

fun cmp_prerelease_tag :: "ident \<Rightarrow> ident \<Rightarrow> int" where
  "cmp_prerelease_tag (Num a) (Num b) = cmp a b"
| "cmp_prerelease_tag (Num a) (Alpha b) = - 1"
| "cmp_prerelease_tag (Alpha a) (Num b) = 1"
| "cmp_prerelease_tag (Alpha a) (Alpha b) = cmp a b"

fun nat_cmp :: "ident list \<Rightarrow> ident list \<Rightarrow> int" where
  "nat_cmp [] [] = 0"
| "nat_cmp [] (b # bs) = - 1"
| "nat_cmp (a # as) [] = 1"
| "nat_cmp (a # as) (b # bs) =
     (if cmp_prerelease_tag a b \<noteq> 0 then cmp_prerelease_tag a b else nat_cmp as bs)"

definition compare :: "version \<Rightarrow> version \<Rightarrow> int" where
  "compare v w =
     (let x = cmp (major v, minor v, patch v) (major w, minor w, patch w)
      in if x \<noteq> 0 then x
         else (case (prerelease v, prerelease w) of
                 (None, None) \<Rightarrow> 0
               | (None, Some b) \<Rightarrow> 1
               | (Some a, None) \<Rightarrow> - 1
               | (Some a, Some b) \<Rightarrow> nat_cmp (split_key a) (split_key b)))"

definition not_valid :: "string \<Rightarrow> exn" where
  "not_valid s = ValueError (s @ '' is not valid SemVer string'')"

text \<open>\<^verbatim>\<open>semver.compare(ver1, ver2)\<close> parses \<^verbatim>\<open>ver1\<close>, then \<^verbatim>\<open>ver2\<close>.\<close>

definition semver_compare :: "string \<Rightarrow> string \<Rightarrow> exn + int" where
  "semver_compare ver1 ver2 =
     (case parse ver1 of
        None \<Rightarrow> Inl (not_valid ver1)
      | Some v1 \<Rightarrow>
          (case parse ver2 of
             None \<Rightarrow> Inl (not_valid ver2)
           | Some v2 \<Rightarrow> Inr (compare v1 v2)))"

text \<open>
  The precedence of a version as a value of a linear order: lexicographic on major, minor,
  patch, then the pre-release, where no pre-release ranks above every pre-release.
  \<^verbatim>\<open>Version.__lt__\<close> is \<^verbatim>\<open>compare(...) < 0\<close>, which is \<open><\<close> on precedences
  (lemma \<open>compare_precedence\<close> below), so \<^verbatim>\<open>sorted(xs, key=Version.parse)\<close>, a stable
  sort, is the stable sort by precedence.
\<close>

fun ident_key :: "ident \<Rightarrow> nat \<times> nat \<times> string" where
  "ident_key (Num n) = (0, n, [])"
| "ident_key (Alpha s) = (1, 0, s)"

definition precedence :: "version \<Rightarrow> (nat \<times> nat \<times> nat) \<times> nat \<times> (nat \<times> nat \<times> string) list" where
  "precedence v =
     ((major v, minor v, patch v),
      (case prerelease v of
         None \<Rightarrow> (1, [])
       | Some p \<Rightarrow> (0, map ident_key (split_key p))))"

text \<open>
  \<^verbatim>\<open>sorted(newer_versions, key=semver.Version.parse)\<close>: every key is computed first (a
  string that does not parse raises), then the strings are sorted by their keys.
\<close>

fun parse_keys :: "string list \<Rightarrow> exn + (version \<times> string) list" where
  "parse_keys [] = Inr []"
| "parse_keys (s # ss) =
     (case parse s of
        None \<Rightarrow> Inl (not_valid s)
      | Some v \<Rightarrow> (case parse_keys ss of Inl e \<Rightarrow> Inl e | Inr ks \<Rightarrow> Inr ((v, s) # ks)))"

definition sorted_by_version :: "string list \<Rightarrow> exn + string list" where
  "sorted_by_version xs =
     (case parse_keys xs of
        Inl e \<Rightarrow> Inl e
      | Inr ks \<Rightarrow> Inr (map snd (sort_key (\<lambda>k. precedence (fst k)) ks)))"

section \<open>UniversalUpgradeEngine\<close>

text \<open>
  \<^verbatim>\<open>check_upgrade_feasibility\<close> reads one row \<^verbatim>\<open>(component_name, version,
  fixed_version)\<close> of the vulnerabilities table (\<^verbatim>\<open>fetchone()\<close> gives \<^verbatim>\<open>None\<close> when there
  is no row; a SQL \<^verbatim>\<open>NULL\<close> fixed version is \<^verbatim>\<open>None\<close>) and, when no fixed version is
  recorded, asks PyPI and then npm for the versions of the component. What the two
  registries answer is an input of the model: \<open>None\<close> stands for a request that raised,
  did not answer 200 or did not carry the expected JSON; \<open>Some vs\<close> is the list of version
  keys in the order of the JSON object.
\<close>

record vuln_row =
  component_name :: string
  current_version :: string
  fixed_version :: "string option"

record registries =
  pypi :: "string list option"
  npm :: "string list option"

datatype feasibility =
    Feasible (fe_component: string) (from_version: string) (to_version: string)
      (confidence: real)
  | Infeasible (reason: string)

text \<open>
  \<^verbatim>\<open>[v for v in versions if semver.compare(v, current_version) > 0]\<close>: the elements are
  compared in order and the first exception ends the comprehension.
\<close>

fun newer_versions :: "string list \<Rightarrow> string \<Rightarrow> exn + string list" where
  "newer_versions [] current = Inr []"
| "newer_versions (v # vs) current =
     (case semver_compare v current of
        Inl e \<Rightarrow> Inl e
      | Inr c \<Rightarrow>
          (case newer_versions vs current of
             Inl e \<Rightarrow> Inl e
           | Inr r \<Rightarrow> Inr (if c > 0 then v # r else r)))"

text \<open>
  One \<^verbatim>\<open>try: ... except: pass\<close> block of \<^verbatim>\<open>_find_latest_safe_version\<close>: the latest
  newer version of one registry, or nothing when the registry did not answer, when there is
  no newer version, or when anything in the block raised.
\<close>

definition latest_from :: "string list option \<Rightarrow> string \<Rightarrow> string option" where
  "latest_from response current =
     (case response of
        None \<Rightarrow> None
      | Some versions \<Rightarrow>
          (case newer_versions versions current of
             Inl e \<Rightarrow> None
           | Inr newer \<Rightarrow>
               if newer \<noteq> [] then
                 (case sorted_by_version newer of Inl e \<Rightarrow> None | Inr srt \<Rightarrow> Some (last srt))
               else None))"

definition find_latest_safe_version :: "registries \<Rightarrow> string \<Rightarrow> string \<Rightarrow> string option" where
  "find_latest_safe_version reg cmpnt current =
     (case latest_from (pypi reg) current of
        Some v \<Rightarrow> Some v
      | None \<Rightarrow> latest_from (npm reg) current)"

text \<open>\<^verbatim>\<open>str(e)\<close> of the exception caught by \<^verbatim>\<open>except Exception as e\<close>.\<close>

fun str_exn :: "exn \<Rightarrow> string" where
  "str_exn (ValueError msg) = msg"
| "str_exn e = []"

text \<open>
  The body of the \<^verbatim>\<open>try\<close> block: \<open>Inr (Some r)\<close> is \<^verbatim>\<open>return r\<close>, \<open>Inr None\<close> is
  falling out of the block, \<open>Inl e\<close> is an exception. A fixed version that is \<^verbatim>\<open>None\<close>
  or the empty string is false in \<^verbatim>\<open>if fixed_version\<close>.
\<close>

definition feasibility_body :: "registries \<Rightarrow> vuln_row \<Rightarrow> exn + feasibility option" where
  "feasibility_body reg row =
     (case fixed_version row of
        Some fixed \<Rightarrow>
          if fixed \<noteq> [] then
            (case semver_compare fixed (current_version row) of
               Inl e \<Rightarrow> Inl e
             | Inr c \<Rightarrow>
                 if c > 0
                 then Inr (Some (Feasible (component_name row) (current_version row) fixed 0.9))
                 else Inr (Some (Infeasible ''Fixed version is not newer'')))
          else
            (case find_latest_safe_version reg (component_name row) (current_version row) of
               None \<Rightarrow> Inr None
             | Some latest_safe \<Rightarrow>
                 if latest_safe \<noteq> []
                 then Inr (Some (Feasible (component_name row) (current_version row)
                                   latest_safe 0.7))
                 else Inr None)
      | None \<Rightarrow>
          (case find_latest_safe_version reg (component_name row) (current_version row) of
             None \<Rightarrow> Inr None
           | Some latest_safe \<Rightarrow>
               if latest_safe \<noteq> []
               then Inr (Some (Feasible (component_name row) (current_version row)
                                 latest_safe 0.7))
               else Inr None))"

definition check_upgrade_feasibility :: "registries \<Rightarrow> vuln_row option \<Rightarrow> feasibility" where
  "check_upgrade_feasibility reg fetched =
     (case fetched of
        None \<Rightarrow> Infeasible ''Vulnerability not found''
      | Some row \<Rightarrow>
          (case feasibility_body reg row of
             Inl e \<Rightarrow> Infeasible (str_exn e)
           | Inr (Some r) \<Rightarrow> r
           | Inr None \<Rightarrow> Infeasible ''No safe upgrade path found''))"

section \<open>Specification vocabulary\<close>

text \<open>
  The edge relation of a graph, walks along its edges, and the layers of the breadth-first
  search: layer \<open>k\<close> holds the walks with \<open>k\<close> edges that start at the source.
\<close>

definition edge_rel :: "digraph \<Rightarrow> (string \<times> string) set" where
  "edge_rel G = {(u, v). has_edge G u v}"

definition is_walk :: "digraph \<Rightarrow> string list \<Rightarrow> bool" where
  "is_walk G w = (w \<noteq> [] \<and> successively (has_edge G) w)"

definition layer :: "digraph \<Rightarrow> string \<Rightarrow> nat \<Rightarrow> string list list" where
  "layer G s k = (extend_walks G ^^ k) [[s]]"

text \<open>
  \<^verbatim>\<open>G.nodes[n].get(k)\<close> for a node that is known to exist, and the \<^verbatim>\<open>relationship\<close>
  attribute of an edge.
\<close>

definition node_attr :: "digraph \<Rightarrow> string \<Rightarrow> string \<Rightarrow> attr option" where
  "node_attr G n k = (case map_of (node_tab G) n of None \<Rightarrow> None | Some a \<Rightarrow> dict_get a k)"

definition edge_label :: "digraph \<Rightarrow> string \<Rightarrow> string \<Rightarrow> attr option" where
  "edge_label G u v =
     (case map_of (edge_tab G) (u, v) of None \<Rightarrow> None | Some a \<Rightarrow> dict_get a ''relationship'')"

definition depends_on :: "digraph \<Rightarrow> string \<Rightarrow> string \<Rightarrow> bool" where
  "depends_on G u v = (edge_label G u v = Some (Str ''DEPENDS_ON''))"

definition affected_by :: "digraph \<Rightarrow> string \<Rightarrow> string \<Rightarrow> bool" where
  "affected_by G u v = (edge_label G u v = Some (Str ''AFFECTED_BY''))"

text \<open>
  The invariant of \<^verbatim>\<open>networkx.DiGraph\<close> that the queries rely on: both endpoints of every
  edge are nodes.
\<close>

definition wf_digraph :: "digraph \<Rightarrow> bool" where
  "wf_digraph G =
     (\<forall>e \<in> set (edge_tab G). has_node G (fst (fst e)) \<and> has_node G (snd (fst e)))"

text \<open>
  The data model of the SBOM graph. \<^verbatim>\<open>generate_sbom\<close> names a project node
  \<^verbatim>\<open>project_<id>\<close>, a vulnerability node \<^verbatim>\<open>vuln_<id>\<close> and a component node
  \<^verbatim>\<open><name>_<version>\<close>, so the name of a node tells its kind. A graph conforms when every
  node carries the \<^verbatim>\<open>type\<close> of its kind, every vulnerability node carries its \<^verbatim>\<open>id\<close>,
  and every edge is either \<^verbatim>\<open>DEPENDS_ON\<close> from a project to a component or
  \<^verbatim>\<open>AFFECTED_BY\<close> from a component to a vulnerability, between existing nodes.
\<close>

definition kind_of :: "string \<Rightarrow> string" where
  "kind_of n =
     (if take 8 n = ''project_'' then ''project''
      else if take 5 n = ''vuln_'' then ''vulnerability''
      else ''component'')"

definition conforms_node :: "digraph \<Rightarrow> string \<Rightarrow> bool" where
  "conforms_node G n =
     (node_attr G n ''type'' = Some (Str (kind_of n)) \<and>
      (if kind_of n = ''vulnerability'' then node_attr G n ''id'' = Some (Str (drop 5 n))
       else True))"

definition conforms_edge :: "digraph \<Rightarrow> (string \<times> string) \<times> attrs \<Rightarrow> bool" where
  "conforms_edge G e =
     (has_node G (fst (fst e)) \<and> has_node G (snd (fst e)) \<and>
      (kind_of (fst (fst e)) = ''project'' \<and> kind_of (snd (fst e)) = ''component'' \<and>
         dict_get (snd e) ''relationship'' = Some (Str ''DEPENDS_ON'') \<or>
       kind_of (fst (fst e)) = ''component'' \<and> kind_of (snd (fst e)) = ''vulnerability'' \<and>
         dict_get (snd e) ''relationship'' = Some (Str ''AFFECTED_BY'')))"

definition conforms :: "digraph \<Rightarrow> bool" where
  "conforms G =
     (list_all (conforms_node G) (nodes G) \<and> list_all (conforms_edge G) (edge_tab G))"

text \<open>
  The entry that the query appends for a vulnerability node and one of its predecessors,
  and the entries one node contributes.
\<close>

definition entry_for :: "digraph \<Rightarrow> string \<Rightarrow> string \<Rightarrow> string \<Rightarrow> entry" where
  "entry_for G src node c =
     \<lparr>vulnerability = node_attr G node ''id'',
      component = node_attr G c ''name'',
      version_of = node_attr G c ''version'',
      path = (case shortest_path G src c of Inl e \<Rightarrow> [] | Inr p \<Rightarrow> p)\<rparr>"

definition hits :: "digraph \<Rightarrow> string \<Rightarrow> string \<Rightarrow> (string \<times> string) list" where
  "hits G src node =
     (if node_attr G node ''type'' = Some (Str ''vulnerability'')
      then map (Pair node) (filter (\<lambda>c. (src, c) \<in> (edge_rel G)\<^sup>*) (predecessors G node))
      else [])"

text \<open>
  The items \<^verbatim>\<open>get_graph_data\<close> builds for an existing node and an existing edge, one
  valid iteration order (descending), and the subgraph of a project.
\<close>

definition node_item_of :: "digraph \<Rightarrow> string \<Rightarrow> node_item" where
  "node_item_of G n =
     \<lparr>node_id = n, node_name = n,
      node_type = (case node_attr G n ''type'' of None \<Rightarrow> Str ''unknown'' | Some v \<Rightarrow> v),
      node_vulns = (case node_attr G n ''vulns'' of None \<Rightarrow> StrList [] | Some v \<Rightarrow> v)\<rparr>"

definition link_item_of :: "digraph \<Rightarrow> string \<times> string \<Rightarrow> link_item" where
  "link_item_of G e =
     \<lparr>source = fst e, target = snd e,
      relationship = (case edge_label G (fst e) (snd e) of None \<Rightarrow> Str ''unknown'' | Some v \<Rightarrow> v)\<rparr>"

definition subgraph_of :: "digraph \<Rightarrow> string \<Rightarrow> string set" where
  "subgraph_of G p = insert p {v. (p, v) \<in> (edge_rel G)\<^sup>+}"

definition descending :: "string set \<Rightarrow> string list" where
  "descending S = rev (sorted_list_of_set S)"

text \<open>
  For the upgrade resolver: a version string is newer than another when both parse and its
  precedence is strictly higher; a candidate list is usable for a current version when
  everything parses and some candidate is newer; a latest candidate is a newer candidate
  that no candidate exceeds.
\<close>

definition newer :: "string \<Rightarrow> string \<Rightarrow> bool" where
  "newer a b =
     (case parse a of
        None \<Rightarrow> False
      | Some va \<Rightarrow> (case parse b of None \<Rightarrow> False | Some vb \<Rightarrow> precedence vb < precedence va))"

definition usable :: "string \<Rightarrow> string list \<Rightarrow> bool" where
  "usable current vs =
     (parse current \<noteq> None \<and> list_all (\<lambda>v. parse v \<noteq> None) vs \<and>
      list_ex (\<lambda>v. newer v current) vs)"

definition source_ok :: "string \<Rightarrow> string list option \<Rightarrow> bool" where
  "source_ok current response = (case response of None \<Rightarrow> False | Some vs \<Rightarrow> usable current vs)"

definition is_latest :: "string \<Rightarrow> string list \<Rightarrow> string \<Rightarrow> bool" where
  "is_latest current vs m =
     (m \<in> set vs \<and> newer m current \<and> (\<forall>v \<in> set vs. newer v current \<longrightarrow> \<not> newer v m))"

definition fixed_absent :: "vuln_row \<Rightarrow> bool" where
  "fixed_absent row = (fixed_version row = None \<or> fixed_version row = Some [])"

text \<open>
  For the idempotence of ingestion: the attribute lists that \<^verbatim>\<open>generate_sbom\<close> writes,
  the node id of a component, and when a component list is free of clashes (no component
  node is the project node, and components with the same node id carry the same
  attributes). \<open>intended_node\<close> and \<open>intended_edge\<close> give the value that one ingestion
  writes into an attribute of a node or an edge; \<open>evolves\<close> relates a graph to a later
  one in which nothing was removed and every attribute either kept its value or took the
  intended one. A node, edge, vulnerability or component is settled in a graph when
  ingesting it again changes nothing.
\<close>

definition edge_attr :: "digraph \<Rightarrow> string \<times> string \<Rightarrow> string \<Rightarrow> attr option" where
  "edge_attr G e k = (case map_of (edge_tab G) e of None \<Rightarrow> None | Some a \<Rightarrow> dict_get a k)"

definition component_node :: "component \<Rightarrow> string" where
  "component_node c = name c @ ''_'' @ version c"

definition project_attrs :: "string \<Rightarrow> attrs" where
  "project_attrs repo_url =
     [(''type'', Str ''project''), (''url'', Str repo_url), (''timestamp'', Str ''2024-01-01'')]"

definition component_attrs :: "component \<Rightarrow> attrs" where
  "component_attrs c =
     [(''type'', Str ''component''), (''name'', Str (name c)),
      (''version'', Str (version c)), (''vulns'', StrList (vulnerabilities c))]"

definition compatible :: "string \<Rightarrow> component list \<Rightarrow> bool" where
  "compatible proj comps =
     (list_all (\<lambda>c. component_node c \<noteq> proj) comps \<and>
      list_all (\<lambda>c. list_all (\<lambda>c'. if component_node c = component_node c'
                                     then component_attrs c = component_attrs c' else True) comps)
        comps)"

definition intended_node :: "string \<Rightarrow> string \<Rightarrow> component list \<Rightarrow> string \<Rightarrow> string \<Rightarrow> attr option" where
  "intended_node proj repo_url comps n k =
     (if n = proj then map_of (project_attrs repo_url) k
      else (case find (\<lambda>c. component_node c = n) comps of
              None \<Rightarrow> None
            | Some c \<Rightarrow> map_of (component_attrs c) k))"

definition intended_edge :: "string \<Rightarrow> string \<times> string \<Rightarrow> string \<Rightarrow> attr option" where
  "intended_edge proj e k =
     (if k = ''relationship''
      then Some (Str (if fst e = proj then ''DEPENDS_ON'' else ''AFFECTED_BY''))
      else None)"

definition evolves ::
  "(string \<Rightarrow> string \<Rightarrow> attr option) \<Rightarrow> (string \<times> string \<Rightarrow> string \<Rightarrow> attr option) \<Rightarrow>
   digraph \<Rightarrow> digraph \<Rightarrow> bool"
where
  "evolves nf ef G H =
     ((\<forall>n. has_node G n \<longrightarrow> has_node H n) \<and>
      (\<forall>u v. has_edge G u v \<longrightarrow> has_edge H u v) \<and>
      (\<forall>n k v. node_attr G n k = Some v \<longrightarrow>
         node_attr H n k = Some v \<or> (node_attr H n k \<noteq> None \<and> node_attr H n k = nf n k)) \<and>
      (\<forall>e k v. edge_attr G e k = Some v \<longrightarrow>
         edge_attr H e k = Some v \<or> (edge_attr H e k \<noteq> None \<and> edge_attr H e k = ef e k)))"

definition node_settled :: "digraph \<Rightarrow> string \<Rightarrow> attrs \<Rightarrow> bool" where
  "node_settled G n kw = (has_node G n \<and> (\<forall>(k, v) \<in> set kw. node_attr G n k = Some v))"

definition edge_settled :: "digraph \<Rightarrow> string \<Rightarrow> string \<Rightarrow> attrs \<Rightarrow> bool" where
  "edge_settled G u v kw =
     (has_node G u \<and> has_node G v \<and> has_edge G u v \<and>
      (\<forall>(k, x) \<in> set kw. edge_attr G (u, v) k = Some x))"

definition vuln_settled :: "digraph \<Rightarrow> string \<Rightarrow> string \<Rightarrow> bool" where
  "vuln_settled G nid x =
     (has_node G (''vuln_'' @ x) \<and>
      edge_settled G nid (''vuln_'' @ x) [(''relationship'', Str ''AFFECTED_BY'')])"

definition component_settled :: "digraph \<Rightarrow> string \<Rightarrow> component \<Rightarrow> bool" where
  "component_settled G proj c =
     (node_settled G (component_node c) (component_attrs c) \<and>
      edge_settled G proj (component_node c) [(''relationship'', Str ''DEPENDS_ON'')] \<and>
      (\<forall>x \<in> set (vulnerabilities c). vuln_settled G (component_node c) x))"

section \<open>Properties\<close>

subsection \<open>Walks and the breadth-first search\<close>

lemma has_edge_iff: "has_edge G u v \<longleftrightarrow> (u, v) \<in> fst ` set (edge_tab G)"
  by (simp add: has_edge_def map_of_eq_None_iff)

lemma edge_rel_eq: "edge_rel G = fst ` set (edge_tab G)"
  by (auto simp: edge_rel_def has_edge_iff)

lemma finite_edge_rel: "finite (edge_rel G)"
  by (simp add: edge_rel_eq)

lemma card_edge_rel: "card (edge_rel G) \<le> length (edge_tab G)"
  unfolding edge_rel_eq by (metis card_image_le card_length le_trans List.finite_set)

lemma set_successors: "set (successors G u) = {v. has_edge G u v}"
  by (force simp: successors_def has_edge_iff)

lemma set_predecessors: "set (predecessors G v) = {u. has_edge G u v}"
  by (force simp: predecessors_def has_edge_iff)

lemma set_extend_walks:
  "set (extend_walks G ws) = {w @ [v] | w v. w \<in> set ws \<and> has_edge G (last w) v}"
  by (auto simp: extend_walks_def set_successors)

lemma layer_0: "layer G s 0 = [[s]]"
  by (simp add: layer_def)

lemma layer_Suc: "layer G s (Suc k) = extend_walks G (layer G s k)"
  by (simp add: layer_def)

lemma is_walk_snoc:
  "is_walk G (w @ [v]) \<longleftrightarrow> (w = [] \<or> (is_walk G w \<and> has_edge G (last w) v))"
  by (cases "w = []") (auto simp: is_walk_def successively_append_iff)

lemma set_layer:
  "set (layer G s k) = {w. is_walk G w \<and> hd w = s \<and> length w = Suc k}"
proof (induction k)
  case 0
  show ?case
    by (auto simp: layer_0 is_walk_def length_Suc_conv)
next
  case (Suc k)
  show ?case
  proof (intro set_eqI iffI)
    fix w assume "w \<in> set (layer G s (Suc k))"
    then obtain w' v where w: "w = w' @ [v]" "w' \<in> set (layer G s k)" "has_edge G (last w') v"
      by (auto simp: layer_Suc set_extend_walks)
    with Suc have "is_walk G w'" "hd w' = s" "length w' = Suc k" by auto
    moreover from this have "w' \<noteq> []" by auto
    ultimately show "w \<in> {w. is_walk G w \<and> hd w = s \<and> length w = Suc (Suc k)}"
      using w by (simp add: is_walk_snoc)
  next
    fix w assume "w \<in> {w. is_walk G w \<and> hd w = s \<and> length w = Suc (Suc k)}"
    then have w: "is_walk G w" "hd w = s" "length w = Suc (Suc k)" by auto
    then obtain w' v where eq: "w = w' @ [v]" "length w' = Suc k"
      by (metis length_Suc_conv_rev)
    then have ne: "w' \<noteq> []" by auto
    with w eq have "is_walk G w'" "has_edge G (last w') v" "hd w' = s"
      by (auto simp: is_walk_snoc)
    with Suc eq have "w' \<in> set (layer G s k)" by auto
    with \<open>has_edge G (last w') v\<close> eq show "w \<in> set (layer G s (Suc k))"
      by (auto simp: layer_Suc set_extend_walks)
  qed
qed

lemma relpow_walk:
  "(s, t) \<in> edge_rel G ^^ k \<longleftrightarrow> (\<exists>w \<in> set (layer G s k). last w = t)"
proof (induction k arbitrary: t)
  case 0
  show ?case by (auto simp: layer_0)
next
  case (Suc k)
  have "(s, t) \<in> edge_rel G ^^ Suc k \<longleftrightarrow> (\<exists>y. (s, y) \<in> edge_rel G ^^ k \<and> has_edge G y t)"
    by (auto simp: edge_rel_def)
  also have "\<dots> \<longleftrightarrow> (\<exists>w \<in> set (layer G s k). has_edge G (last w) t)"
    unfolding Suc by blast
  also have "\<dots> \<longleftrightarrow> (\<exists>w \<in> set (layer G s (Suc k)). last w = t)"
    by (fastforce simp: layer_Suc set_extend_walks)
  finally show ?case .
qed

lemma find_SomeD: "find P xs = Some x \<Longrightarrow> P x \<and> x \<in> set xs"
  by (induction xs) (auto split: if_splits)

lemma find_walk_None:
  "find_walk G ws t n = None \<Longrightarrow> k \<le> n \<Longrightarrow> w \<in> set ((extend_walks G ^^ k) ws) \<Longrightarrow> last w \<noteq> t"
proof (induction n arbitrary: ws k)
  case 0
  then show ?case by (auto simp: find_None_iff)
next
  case (Suc n)
  from Suc.prems(1) have none: "find (\<lambda>w. last w = t) ws = None"
    and rest: "find_walk G (extend_walks G ws) t n = None"
    by (auto split: option.splits)
  show ?case
  proof (cases k)
    case 0
    with Suc.prems(3) none show ?thesis by (auto simp: find_None_iff)
  next
    case (Suc k')
    with Suc.prems have "k' \<le> n" "w \<in> set ((extend_walks G ^^ k') (extend_walks G ws))"
      by (simp_all add: funpow_swap1)
    with Suc.IH[OF rest] show ?thesis by blast
  qed
qed

lemma find_walk_Some:
  "find_walk G ws t n = Some p \<Longrightarrow>
   \<exists>k \<le> n. p \<in> set ((extend_walks G ^^ k) ws) \<and> last p = t \<and>
     (\<forall>i < k. \<forall>w \<in> set ((extend_walks G ^^ i) ws). last w \<noteq> t)"
proof (induction n arbitrary: ws)
  case 0
  then have "p \<in> set ws \<and> last p = t" by (auto dest!: find_SomeD)
  then show ?case by simp
next
  case (Suc n)
  show ?case
  proof (cases "find (\<lambda>w. last w = t) ws")
    case (Some q)
    with Suc.prems have "q = p" by simp
    with Some have "p \<in> set ((extend_walks G ^^ 0) ws) \<and> last p = t"
      by (auto dest!: find_SomeD)
    then show ?thesis by (intro exI[of _ 0]) simp
  next
    case None
    with Suc.prems have "find_walk G (extend_walks G ws) t n = Some p" by simp
    from Suc.IH[OF this] obtain k where k: "k \<le> n"
      "p \<in> set ((extend_walks G ^^ k) (extend_walks G ws))" "last p = t"
      "\<forall>i < k. \<forall>w \<in> set ((extend_walks G ^^ i) (extend_walks G ws)). last w \<noteq> t"
      by blast
    have "\<forall>i < Suc k. \<forall>w \<in> set ((extend_walks G ^^ i) ws). last w \<noteq> t"
    proof (intro allI impI ballI)
      fix i w assume i: "i < Suc k" and w: "w \<in> set ((extend_walks G ^^ i) ws)"
      show "last w \<noteq> t"
      proof (cases i)
        case 0
        with w None show ?thesis by (auto simp: find_None_iff)
      next
        case (Suc i')
        with i w have "i' < k" "w \<in> set ((extend_walks G ^^ i') (extend_walks G ws))"
          by (simp_all add: funpow_swap1)
        with k(4) show ?thesis by blast
      qed
    qed
    with k show ?thesis
      by (intro exI[of _ "Suc k"]) (simp add: funpow_swap1)
  qed
qed


lemma shortest_path_Inr:
  assumes "shortest_path G s t = Inr p"
  shows "has_node G s" "has_node G t" "is_walk G p" "hd p = s" "last p = t"
    "\<And>w. is_walk G w \<Longrightarrow> hd w = s \<Longrightarrow> last w = t \<Longrightarrow> length p \<le> length w"
proof -
  from assms show n: "has_node G s" "has_node G t"
    by (auto simp: shortest_path_def split: if_splits)
  with assms have "find_walk G [[s]] t (length (edge_tab G)) = Some p"
    by (auto simp: shortest_path_def split: option.splits)
  from find_walk_Some[OF this] obtain k where
    k: "p \<in> set (layer G s k)" "last p = t"
       "\<forall>i < k. \<forall>w \<in> set (layer G s i). last w \<noteq> t"
    unfolding layer_def by blast
  then show "is_walk G p" "hd p = s" "last p = t"
    by (auto simp: set_layer)
  from k have len: "length p = Suc k" by (simp add: set_layer)
  fix w assume w: "is_walk G w" "hd w = s" "last w = t"
  then obtain m where m: "length w = Suc m"
    by (cases w) (auto simp: is_walk_def)
  with w have "w \<in> set (layer G s m)" by (simp add: set_layer)
  with k(3) w(3) have "\<not> m < k" by blast
  with len m show "length p \<le> length w" by simp
qed

lemma find_walk_reachable:
  assumes "(s, t) \<in> (edge_rel G)\<^sup>*"
  shows "find_walk G [[s]] t (length (edge_tab G)) \<noteq> None"
proof
  assume none: "find_walk G [[s]] t (length (edge_tab G)) = None"
  from assms obtain n where n: "n \<le> card (edge_rel G)" "(s, t) \<in> edge_rel G ^^ n"
    using rtrancl_finite_eq_relpow[OF finite_edge_rel, of G] by auto
  then obtain w where w: "w \<in> set (layer G s n)" "last w = t"
    by (auto simp: relpow_walk)
  from n card_edge_rel[of G] have "n \<le> length (edge_tab G)" by simp
  from find_walk_None[OF none this] w show False
    by (auto simp: layer_def)
qed

lemma find_walk_sound:
  assumes "find_walk G [[s]] t n = Some p"
  shows "(s, t) \<in> (edge_rel G)\<^sup>*"
proof -
  from find_walk_Some[OF assms] obtain k where "p \<in> set (layer G s k)" "last p = t"
    unfolding layer_def by blast
  then have "(s, t) \<in> edge_rel G ^^ k" by (auto simp: relpow_walk)
  then show ?thesis by (rule relpow_imp_rtrancl)
qed

lemma has_path_iff:
  assumes "has_node G s" "has_node G t"
  shows "has_path G s t = Inr ((s, t) \<in> (edge_rel G)\<^sup>*)"
proof (cases "find_walk G [[s]] t (length (edge_tab G))")
  case None
  with find_walk_reachable[of s t G] have "(s, t) \<notin> (edge_rel G)\<^sup>*" by auto
  with None assms show ?thesis by (simp add: has_path_def shortest_path_def)
next
  case (Some p)
  from find_walk_sound[OF this] Some assms show ?thesis
    by (simp add: has_path_def shortest_path_def)
qed

lemma has_path_no_source: "\<not> has_node G s \<Longrightarrow> has_path G s t = Inl NodeNotFound"
  by (simp add: has_path_def shortest_path_def)

lemma shortest_path_total:
  assumes "has_node G s" "has_node G t" "(s, t) \<in> (edge_rel G)\<^sup>*"
  shows "\<exists>p. shortest_path G s t = Inr p"
  using assms find_walk_reachable[OF assms(3)]
  by (auto simp: shortest_path_def split: option.splits)

lemma nodes_getitem_node: "has_node G n \<Longrightarrow> \<exists>a. nodes_getitem G n = Inr a \<and> map_of (node_tab G) n = Some a"
  by (auto simp: has_node_def nodes_getitem_def)

lemma has_node_iff: "has_node G n \<longleftrightarrow> n \<in> set (nodes G)"
  by (simp add: has_node_def nodes_def map_of_eq_None_iff)

lemma scan_components_closed:
  assumes "has_node G src" "has_node G node" "\<forall>c \<in> set cs. has_node G c"
  shows "scan_components G src node cs acc =
    Inr (acc @ map (entry_for G src node) (filter (\<lambda>c. (src, c) \<in> (edge_rel G)\<^sup>*) cs))"
  using assms(3)
proof (induction cs arbitrary: acc)
  case Nil
  show ?case by simp
next
  case (Cons c cs)
  then have c: "has_node G c" and cs: "\<forall>c \<in> set cs. has_node G c" by auto
  note hp = has_path_iff[OF assms(1) c]
  show ?case
  proof (cases "(src, c) \<in> (edge_rel G)\<^sup>*")
    case False
    with hp Cons.IH[OF cs] show ?thesis by simp
  next
    case True
    from shortest_path_total[OF assms(1) c True] obtain p where p: "shortest_path G src c = Inr p" ..
    from nodes_getitem_node[OF assms(2)] obtain na where
      na: "nodes_getitem G node = Inr na" "map_of (node_tab G) node = Some na" by blast
    from nodes_getitem_node[OF c] obtain ca where
      ca: "nodes_getitem G c = Inr ca" "map_of (node_tab G) c = Some ca" by blast
    from True hp p na ca Cons.IH[OF cs] show ?thesis
      by (simp add: entry_for_def node_attr_def)
  qed
qed

lemma scan_components_no_source:
  assumes "\<not> has_node G src"
  shows "scan_components G src node cs acc = (if cs = [] then Inr acc else Inl (NodeNotFound, acc))"
  using assms by (cases cs) (simp_all add: has_path_no_source)

lemma predecessors_nodes:
  "wf_digraph G \<Longrightarrow> c \<in> set (predecessors G node) \<Longrightarrow> has_node G c"
  by (auto simp: wf_digraph_def predecessors_def)

lemma scan_nodes_closed:
  assumes "wf_digraph G" "has_node G src" "set ns \<subseteq> set (nodes G)"
  shows "scan_nodes G src ns acc =
    Inr (acc @ map (\<lambda>(node, c). entry_for G src node c) (concat (map (hits G src) ns)))"
  using assms(3)
proof (induction ns arbitrary: acc)
  case Nil
  show ?case by simp
next
  case (Cons n ns)
  then have n: "has_node G n" and ns: "set ns \<subseteq> set (nodes G)"
    by (auto simp: has_node_iff)
  from nodes_getitem_node[OF n] obtain na where
    na: "nodes_getitem G n = Inr na" "map_of (node_tab G) n = Some na" by blast
  have preds: "\<forall>c \<in> set (predecessors G n). has_node G c"
    using predecessors_nodes[OF assms(1)] by blast
  show ?case
    using na Cons.IH[OF ns] scan_components_closed[OF assms(2) n preds]
    by (simp add: hits_def node_attr_def comp_def)
qed

lemma scan_nodes_no_source:
  assumes "\<not> has_node G src" "set ns \<subseteq> set (nodes G)"
  shows "scan_nodes G src ns acc = Inr acc"
  using assms(2)
proof (induction ns arbitrary: acc)
  case Nil
  show ?case by simp
next
  case (Cons n ns)
  then have n: "has_node G n" and ns: "set ns \<subseteq> set (nodes G)"
    by (auto simp: has_node_iff)
  from nodes_getitem_node[OF n] obtain na where
    na: "nodes_getitem G n = Inr na" by blast
  show ?case
    using na Cons.IH[OF ns] scan_components_no_source[OF assms(1)]
    by simp
qed

lemma query_closed:
  assumes "wf_digraph G"
  shows "query_reachable_vulnerabilities G pid vc =
    Inr (if has_node G (project_node pid)
         then map (\<lambda>(node, c). entry_for G (project_node pid) node c)
                (concat (map (hits G (project_node pid)) (nodes G)))
         else [])"
  using scan_nodes_closed[OF assms, of "project_node pid" "nodes G" "[]"]
    scan_nodes_no_source[of G "project_node pid" "nodes G" "[]"]
  by (simp add: query_reachable_vulnerabilities_def)

subsection \<open>The reachability query\<close>


lemma conforms_wf: "conforms G \<Longrightarrow> wf_digraph G"
  by (auto simp: conforms_def wf_digraph_def list_all_iff conforms_edge_def)

lemma conforms_nodeD: "conforms G \<Longrightarrow> has_node G n \<Longrightarrow> conforms_node G n"
  by (simp add: conforms_def list_all_iff has_node_iff)

lemma edge_label_has_edge: "edge_label G u v = Some l \<Longrightarrow> has_edge G u v"
  by (auto simp: edge_label_def has_edge_def split: option.splits)

lemma conforms_edgeD:
  assumes "conforms G" "has_edge G u v"
  shows "has_node G u \<and> has_node G v \<and>
    (kind_of u = ''project'' \<and> kind_of v = ''component'' \<and> depends_on G u v \<or>
     kind_of u = ''component'' \<and> kind_of v = ''vulnerability'' \<and> affected_by G u v)"
proof -
  from assms(2) obtain a where a: "map_of (edge_tab G) (u, v) = Some a"
    by (auto simp: has_edge_def)
  then have "((u, v), a) \<in> set (edge_tab G)" by (rule map_of_SomeD)
  with assms(1) have "conforms_edge G ((u, v), a)"
    by (simp add: conforms_def list_all_iff)
  with a show ?thesis
    by (auto simp: conforms_edge_def depends_on_def affected_by_def edge_label_def)
qed

lemma kind_of_project_node [simp]: "kind_of (project_node pid) = ''project''"
  by (simp add: kind_of_def project_node_def)

lemma kind_of_vuln: "kind_of (''vuln_'' @ vid) = ''vulnerability''"
  by (simp add: kind_of_def)

lemma kind_of_vulnD: "kind_of n = ''vulnerability'' \<Longrightarrow> n = ''vuln_'' @ drop 5 n"
proof -
  assume "kind_of n = ''vulnerability''"
  then have "take 5 n = ''vuln_''"
    by (simp add: kind_of_def split: if_splits)
  then show ?thesis
    by (metis append_take_drop_id)
qed

lemma no_edge_into_project:
  "conforms G \<Longrightarrow> (u, v) \<in> (edge_rel G)\<^sup>* \<Longrightarrow> kind_of v = ''project'' \<Longrightarrow> u = v"
proof (erule rtranclE)
  fix y assume c: "conforms G" and k: "kind_of v = ''project''" and "(y, v) \<in> edge_rel G"
  then have "has_edge G y v" by (simp add: edge_rel_def)
  from conforms_edgeD[OF c this] k show "u = v" by simp
qed simp

lemma project_reaches_component:
  assumes "conforms G" "(s, c) \<in> (edge_rel G)\<^sup>*" "kind_of s = ''project''" "kind_of c = ''component''"
  shows "depends_on G s c"
  using assms(2)
proof (cases rule: rtranclE)
  case base
  with assms(3,4) show ?thesis by simp
next
  case (step y)
  from step(2) have e: "has_edge G y c" by (simp add: edge_rel_def)
  from conforms_edgeD[OF assms(1) e] assms(4) have y: "kind_of y = ''project''" "depends_on G y c"
    by auto
  from no_edge_into_project[OF assms(1) step(1) y(1)] y(2) show ?thesis by simp
qed

lemma set_hits:
  "set (hits G src node) =
     {(n, c). n = node \<and> node_attr G node ''type'' = Some (Str ''vulnerability'') \<and>
        has_edge G c node \<and> (src, c) \<in> (edge_rel G)\<^sup>*}"
  by (auto simp: hits_def set_predecessors)

lemma vulnerability_entry_for [simp]: "vulnerability (entry_for G src node c) = node_attr G node ''id''"
  by (simp add: entry_for_def)

lemma reported_iff:
  assumes "conforms G"
  shows "(\<exists>node c. has_node G node \<and> (node, c) \<in> set (hits G (project_node pid) node) \<and>
            node_attr G node ''id'' = Some (Str vid)) \<longleftrightarrow>
         (\<exists>C. depends_on G (project_node pid) C \<and> affected_by G C (''vuln_'' @ vid))"
    (is "?L \<longleftrightarrow> ?R")
proof
  assume ?L
  then obtain node c where n: "has_node G node"
    and ty: "node_attr G node ''type'' = Some (Str ''vulnerability'')"
    and e: "has_edge G c node" and r: "(project_node pid, c) \<in> (edge_rel G)\<^sup>*"
    and i: "node_attr G node ''id'' = Some (Str vid)"
    by (auto simp: set_hits)
  from conforms_nodeD[OF assms n] ty have k: "kind_of node = ''vulnerability''"
    by (simp add: conforms_node_def)
  with conforms_nodeD[OF assms n] i have "drop 5 node = vid"
    by (simp add: conforms_node_def)
  with kind_of_vulnD[OF k] have node: "node = ''vuln_'' @ vid" by simp
  from conforms_edgeD[OF assms e] k have c: "kind_of c = ''component''" "affected_by G c node"
    by auto
  from project_reaches_component[OF assms r _ c(1)] have "depends_on G (project_node pid) c"
    by simp
  with c(2) node show ?R by blast
next
  assume ?R
  then obtain C where d: "depends_on G (project_node pid) C"
    and a: "affected_by G C (''vuln_'' @ vid)" by blast
  from d have e1: "has_edge G (project_node pid) C"
    by (auto simp: depends_on_def dest: edge_label_has_edge)
  from a have e2: "has_edge G C (''vuln_'' @ vid)"
    by (auto simp: affected_by_def dest: edge_label_has_edge)
  from conforms_edgeD[OF assms e2] have n: "has_node G (''vuln_'' @ vid)" by simp
  from conforms_nodeD[OF assms n] kind_of_vuln[of vid]
  have ty: "node_attr G (''vuln_'' @ vid) ''type'' = Some (Str ''vulnerability'')"
    and i: "node_attr G (''vuln_'' @ vid) ''id'' = Some (Str vid)"
    by (simp_all add: conforms_node_def)
  from e1 have "(project_node pid, C) \<in> (edge_rel G)\<^sup>*"
    by (auto simp: edge_rel_def)
  with ty e2 have "(''vuln_'' @ vid, C) \<in> set (hits G (project_node pid) (''vuln_'' @ vid))"
    by (simp add: set_hits)
  with n i show ?L by blast
qed

text \<open>
  C1. On every graph of the data model, for every project and every vulnerability id: the
  query returns (it never raises), some entry of the result reports the vulnerability if
  and only if some node \<open>C\<close> has a \<^verbatim>\<open>DEPENDS_ON\<close> edge from the project and an
  \<^verbatim>\<open>AFFECTED_BY\<close> edge to the vulnerability node, and the result is the empty list when
  no such pair of edges exists (no dependencies, or none of them affected).
\<close>

theorem reachability_correct:
  assumes "conforms G"
  shows "\<exists>r. query_reachable_vulnerabilities G project_id vc = Inr r \<and>
           (\<forall>vid. (\<exists>e \<in> set r. vulnerability e = Some (Str vid)) \<longleftrightarrow>
                  (\<exists>C. depends_on G (project_node project_id) C \<and>
                       affected_by G C (''vuln_'' @ vid))) \<and>
           ((\<forall>C V. \<not> (depends_on G (project_node project_id) C \<and> affected_by G C V))
              \<longrightarrow> r = [])"
proof -
  let ?P = "project_node project_id"
  let ?r = "if has_node G ?P
            then map (\<lambda>(node, c). entry_for G ?P node c) (concat (map (hits G ?P) (nodes G)))
            else []"
  have q: "query_reachable_vulnerabilities G project_id vc = Inr ?r"
    by (rule query_closed[OF conforms_wf[OF assms]])
  have src: "has_node G ?P" if "depends_on G ?P C" for C
    using that conforms_edgeD[OF assms, of ?P C]
    by (auto simp: depends_on_def dest: edge_label_has_edge)
  have mem: "(\<exists>e \<in> set ?r. vulnerability e = Some (Str vid)) \<longleftrightarrow>
        (\<exists>C. depends_on G ?P C \<and> affected_by G C (''vuln_'' @ vid))" for vid
  proof (cases "has_node G ?P")
    case False
    with src show ?thesis by auto
  next
    case True
    have "(\<exists>e \<in> set ?r. vulnerability e = Some (Str vid)) \<longleftrightarrow>
          (\<exists>node c. has_node G node \<and> (node, c) \<in> set (hits G ?P node) \<and>
            node_attr G node ''id'' = Some (Str vid))"
      using True by (fastforce simp: has_node_iff set_hits)
    then show ?thesis by (simp only: reported_iff[OF assms])
  qed
  have empty: "?r = []" if none: "\<forall>C V. \<not> (depends_on G ?P C \<and> affected_by G C V)"
  proof (rule ccontr)
    assume "?r \<noteq> []"
    then have "concat (map (hits G ?P) (nodes G)) \<noteq> []"
      by (auto split: if_splits)
    then obtain x where "x \<in> set (concat (map (hits G ?P) (nodes G)))"
      by (cases "concat (map (hits G ?P) (nodes G))") auto
    then obtain node c where n: "node \<in> set (nodes G)"
      and h: "(node, c) \<in> set (hits G ?P node)"
      by (auto simp: set_hits)
    from n have hn: "has_node G node" by (simp add: has_node_iff)
    from h have ty: "node_attr G node ''type'' = Some (Str ''vulnerability'')"
      by (simp add: set_hits)
    with conforms_nodeD[OF assms hn] have "node_attr G node ''id'' = Some (Str (drop 5 node))"
      by (simp add: conforms_node_def)
    with hn h reported_iff[OF assms, of project_id "drop 5 node"] none show False
      by blast
  qed
  from q mem empty show ?thesis by blast
qed


theorem reachability_correct_witness:
  "conforms (generate_sbom empty_graph 1 ''repo'') \<and>
   (\<exists>r. query_reachable_vulnerabilities (generate_sbom empty_graph 1 ''repo'') 1 ''requests'' = Inr r \<and>
        (\<forall>vid. (\<exists>e \<in> set r. vulnerability e = Some (Str vid)) \<longleftrightarrow>
               (\<exists>C. depends_on (generate_sbom empty_graph 1 ''repo'') (project_node 1) C \<and>
                    affected_by (generate_sbom empty_graph 1 ''repo'') C (''vuln_'' @ vid))) \<and>
        ((\<forall>C V. \<not> (depends_on (generate_sbom empty_graph 1 ''repo'') (project_node 1) C \<and>
                     affected_by (generate_sbom empty_graph 1 ''repo'') C V))
           \<longrightarrow> r = []))"
proof -
  have c: "conforms (generate_sbom empty_graph 1 ''repo'')"
    by code_simp
  from reachability_correct[OF c, of 1 "''requests''"] c show ?thesis
    by simp
qed

lemma entry_for_fields [simp]:
  "component (entry_for G src node c) = node_attr G c ''name''"
  "version_of (entry_for G src node c) = node_attr G c ''version''"
  by (simp_all add: entry_for_def)

lemma query_paths_shortest:
  assumes "wf_digraph G"
  shows "\<exists>r. query_reachable_vulnerabilities G project_id vc = Inr r \<and>
     (\<forall>e \<in> set r. \<exists>node c.
        node_attr G node ''type'' = Some (Str ''vulnerability'') \<and> has_edge G c node \<and>
        vulnerability e = node_attr G node ''id'' \<and> component e = node_attr G c ''name'' \<and>
        version_of e = node_attr G c ''version'' \<and>
        is_walk G (path e) \<and> hd (path e) = project_node project_id \<and> last (path e) = c \<and>
        (\<forall>w. is_walk G w \<and> hd w = project_node project_id \<and> last w = c
              \<longrightarrow> length (path e) \<le> length w))"
proof -
  let ?P = "project_node project_id"
  let ?r = "if has_node G ?P
            then map (\<lambda>(node, c). entry_for G ?P node c) (concat (map (hits G ?P) (nodes G)))
            else []"
  have q: "query_reachable_vulnerabilities G project_id vc = Inr ?r"
    by (rule query_closed[OF assms])
  have "\<exists>node c.
        node_attr G node ''type'' = Some (Str ''vulnerability'') \<and> has_edge G c node \<and>
        vulnerability e = node_attr G node ''id'' \<and> component e = node_attr G c ''name'' \<and>
        version_of e = node_attr G c ''version'' \<and>
        is_walk G (path e) \<and> hd (path e) = ?P \<and> last (path e) = c \<and>
        (\<forall>w. is_walk G w \<and> hd w = ?P \<and> last w = c \<longrightarrow> length (path e) \<le> length w)"
    if "e \<in> set ?r" for e
  proof -
    from that obtain node c where P: "has_node G ?P" and e: "e = entry_for G ?P node c"
      and h: "(node, c) \<in> set (hits G ?P node)"
      by (auto simp: set_hits split: if_splits)
    from h have ty: "node_attr G node ''type'' = Some (Str ''vulnerability'')"
      and ed: "has_edge G c node" and re: "(?P, c) \<in> (edge_rel G)\<^sup>*"
      by (simp_all add: set_hits)
    from ed assms have c: "has_node G c"
      by (auto intro: predecessors_nodes simp: set_predecessors)
    from shortest_path_total[OF P c re] obtain p where p: "shortest_path G ?P c = Inr p" ..
    with e have pe: "path e = p" by (simp add: entry_for_def)
    from shortest_path_Inr(3-6)[OF p] pe ty ed e show ?thesis
      by (intro exI[of _ node] exI[of _ c]) simp
  qed
  with q show ?thesis by blast
qed

lemma walk_into_project:
  assumes "conforms G" "is_walk G w" "kind_of (last w) = ''project''"
  shows "w = [last w]"
proof (cases w rule: rev_cases)
  case Nil
  with assms(2) show ?thesis by (simp add: is_walk_def)
next
  case (snoc ys y)
  show ?thesis
  proof (cases "ys = []")
    case True
    with snoc show ?thesis by simp
  next
    case False
    with assms(2) snoc have "has_edge G (last ys) y" by (simp add: is_walk_snoc)
    from conforms_edgeD[OF assms(1) this] assms(3) snoc show ?thesis by simp
  qed
qed

lemma walk_to_component:
  assumes "conforms G" "is_walk G w" "kind_of (hd w) = ''project''"
    and "kind_of (last w) = ''component''"
  shows "w = [hd w, last w]"
proof (cases w rule: rev_cases)
  case Nil
  with assms(2) show ?thesis by (simp add: is_walk_def)
next
  case (snoc ys y)
  show ?thesis
  proof (cases "ys = []")
    case True
    with snoc assms(3,4) show ?thesis by simp
  next
    case False
    with assms(2) snoc have w: "is_walk G ys" and e: "has_edge G (last ys) y"
      by (simp_all add: is_walk_snoc)
    from conforms_edgeD[OF assms(1) e] assms(4) snoc have "kind_of (last ys) = ''project''"
      by simp
    from walk_into_project[OF assms(1) w this] have "ys = [last ys]" .
    then have "ys = [hd ys]" by (metis list.sel(1))
    with snoc False show ?thesis by (metis hd_append2 last_snoc append_Cons append_Nil)
  qed
qed

text \<open>
  C2 (as amended). On every graph state of the data model (every state that ingestion
  builds from the empty graph), the query returns, and the \<^verbatim>\<open>path\<close> of every entry is a
  sequence of node ids that starts at the project node, ends at the affected component node
  (a direct predecessor of the reported vulnerability node, and distinct from it), follows
  only edges of the graph, has the fewest edges among all walks from the project node to
  that component, and comes first in the lexicographic order of node ids among the walks of
  that length. On these graphs the walk from the project node to the component is unique:
  it is the single edge from the one to the other.
\<close>

theorem path_shortest_to_component:
  assumes "conforms G"
  shows "\<exists>r. query_reachable_vulnerabilities G project_id vc = Inr r \<and>
     (\<forall>e \<in> set r. \<exists>node c.
        node_attr G node ''type'' = Some (Str ''vulnerability'') \<and>
        vulnerability e = node_attr G node ''id'' \<and>
        has_edge G c node \<and> c \<noteq> node \<and>
        component e = node_attr G c ''name'' \<and> version_of e = node_attr G c ''version'' \<and>
        is_walk G (path e) \<and> hd (path e) = project_node project_id \<and> last (path e) = c \<and>
        path e = [project_node project_id, c] \<and>
        (\<forall>w. is_walk G w \<and> hd w = project_node project_id \<and> last w = c \<longrightarrow>
              length (path e) \<le> length w \<and>
              (length w = length (path e) \<longrightarrow> path e \<le> w)))"
proof -
  let ?P = "project_node project_id"
  from query_paths_shortest[OF conforms_wf[OF assms], of project_id vc] obtain r where
    q: "query_reachable_vulnerabilities G project_id vc = Inr r"
    and r: "\<forall>e \<in> set r. \<exists>node c.
        node_attr G node ''type'' = Some (Str ''vulnerability'') \<and> has_edge G c node \<and>
        vulnerability e = node_attr G node ''id'' \<and> component e = node_attr G c ''name'' \<and>
        version_of e = node_attr G c ''version'' \<and>
        is_walk G (path e) \<and> hd (path e) = ?P \<and> last (path e) = c \<and>
        (\<forall>w. is_walk G w \<and> hd w = ?P \<and> last w = c \<longrightarrow> length (path e) \<le> length w)"
    by blast
  have "\<exists>node c.
        node_attr G node ''type'' = Some (Str ''vulnerability'') \<and>
        vulnerability e = node_attr G node ''id'' \<and>
        has_edge G c node \<and> c \<noteq> node \<and>
        component e = node_attr G c ''name'' \<and> version_of e = node_attr G c ''version'' \<and>
        is_walk G (path e) \<and> hd (path e) = ?P \<and> last (path e) = c \<and>
        path e = [?P, c] \<and>
        (\<forall>w. is_walk G w \<and> hd w = ?P \<and> last w = c \<longrightarrow>
              length (path e) \<le> length w \<and> (length w = length (path e) \<longrightarrow> path e \<le> w))"
    if "e \<in> set r" for e
  proof -
    from r that obtain node c where
      ty: "node_attr G node ''type'' = Some (Str ''vulnerability'')"
      and ed: "has_edge G c node" and v: "vulnerability e = node_attr G node ''id''"
      and cn: "component e = node_attr G c ''name''"
      and cv: "version_of e = node_attr G c ''version''"
      and w: "is_walk G (path e)" and h: "hd (path e) = ?P" and l: "last (path e) = c"
      by blast
    from conforms_edgeD[OF assms ed] have n: "has_node G node" by simp
    from conforms_nodeD[OF assms n] ty have kn: "kind_of node = ''vulnerability''"
      by (simp add: conforms_node_def)
    with conforms_edgeD[OF assms ed] have kc: "kind_of c = ''component''" by auto
    with kn have ne: "c \<noteq> node" by auto
    have uniq: "w' = [?P, c]" if "is_walk G w'" "hd w' = ?P" "last w' = c" for w'
      using walk_to_component[OF assms that(1)] that(2,3) kc by simp
    from uniq[OF w h l] have p: "path e = [?P, c]" .
    have "length (path e) \<le> length w' \<and> (length w' = length (path e) \<longrightarrow> path e \<le> w')"
      if "is_walk G w' \<and> hd w' = ?P \<and> last w' = c" for w'
      using uniq[of w'] that p by simp
    with ty v ed ne cn cv w h l p show ?thesis by blast
  qed
  with q show ?thesis by blast
qed

theorem path_shortest_to_component_witness:
  "conforms (generate_sbom empty_graph 1 ''repo'') \<and>
   (\<exists>r. query_reachable_vulnerabilities (generate_sbom empty_graph 1 ''repo'') 1 ''requests'' = Inr r \<and>
     (\<forall>e \<in> set r. \<exists>node c.
        node_attr (generate_sbom empty_graph 1 ''repo'') node ''type'' = Some (Str ''vulnerability'') \<and>
        vulnerability e = node_attr (generate_sbom empty_graph 1 ''repo'') node ''id'' \<and>
        has_edge (generate_sbom empty_graph 1 ''repo'') c node \<and> c \<noteq> node \<and>
        component e = node_attr (generate_sbom empty_graph 1 ''repo'') c ''name'' \<and>
        version_of e = node_attr (generate_sbom empty_graph 1 ''repo'') c ''version'' \<and>
        is_walk (generate_sbom empty_graph 1 ''repo'') (path e) \<and>
        hd (path e) = project_node 1 \<and> last (path e) = c \<and>
        path e = [project_node 1, c] \<and>
        (\<forall>w. is_walk (generate_sbom empty_graph 1 ''repo'') w \<and> hd w = project_node 1 \<and> last w = c
              \<longrightarrow> length (path e) \<le> length w \<and>
                  (length w = length (path e) \<longrightarrow> path e \<le> w))))"
proof -
  have c: "conforms (generate_sbom empty_graph 1 ''repo'')"
    by code_simp
  from path_shortest_to_component[OF c, of 1 "''requests''"] c show ?thesis
    by simp
qed

text \<open>
  The specification has the path end at the vulnerability node. After one ingestion into
  the empty graph, the path reported for \<^verbatim>\<open>CVE-2023-1234\<close> ends at the component
  \<^verbatim>\<open>requests_2.28.1\<close>, although the node \<^verbatim>\<open>vuln_CVE-2023-1234\<close> and the edge to it
  exist.
\<close>

theorem path_ends_at_component_counterexample:
  "query_reachable_vulnerabilities (generate_sbom empty_graph 1 ''repo'') 1 ''requests'' =
     Inr [\<lparr>vulnerability = Some (Str ''CVE-2023-1234''), component = Some (Str ''requests''),
            version_of = Some (Str ''2.28.1''), path = [''project_1'', ''requests_2.28.1'']\<rparr>,
          \<lparr>vulnerability = Some (Str ''CVE-2023-5678''), component = Some (Str ''sqlalchemy''),
            version_of = Some (Str ''1.4.47''), path = [''project_1'', ''sqlalchemy_1.4.47'']\<rparr>,
          \<lparr>vulnerability = Some (Str ''CVE-2023-9012''), component = Some (Str ''werkzeug''),
            version_of = Some (Str ''2.3.0''), path = [''project_1'', ''werkzeug_2.3.0'']\<rparr>] \<and>
   has_node (generate_sbom empty_graph 1 ''repo'') ''vuln_CVE-2023-1234'' \<and>
   has_edge (generate_sbom empty_graph 1 ''repo'') ''requests_2.28.1'' ''vuln_CVE-2023-1234'' \<and>
   last [''project_1'', ''requests_2.28.1''] \<noteq> ''vuln_CVE-2023-1234''"
  by code_simp

subsection \<open>The subgraph query\<close>


lemma set_reach_list: "set (reach_list G s) = {v. (s, v) \<in> (edge_rel G)\<^sup>+}"
proof -
  have idx: "set [1..<Suc (length (edge_tab G))] = {k. 0 < k \<and> k \<le> length (edge_tab G)}"
    by auto
  have "set (reach_list G s) = (\<Union>k \<in> set [1..<Suc (length (edge_tab G))]. last ` set (layer G s k))"
    by (simp add: reach_list_def layer_def del: upt_Suc)
  also have "\<dots> = (\<Union>k \<in> {k. 0 < k \<and> k \<le> length (edge_tab G)}. last ` set (layer G s k))"
    by (simp only: idx)
  also have "\<dots> = (\<Union>k \<in> {k. 0 < k \<and> k \<le> length (edge_tab G)}. {v. (s, v) \<in> edge_rel G ^^ k})"
    by (force simp: relpow_walk)
  also have "\<dots> = {v. (s, v) \<in> (edge_rel G)\<^sup>+}"
  proof (intro set_eqI iffI)
    fix v assume "v \<in> (\<Union>k \<in> {k. 0 < k \<and> k \<le> length (edge_tab G)}. {v. (s, v) \<in> edge_rel G ^^ k})"
    then obtain k where "0 < k" "(s, v) \<in> edge_rel G ^^ k" by auto
    then show "v \<in> {v. (s, v) \<in> (edge_rel G)\<^sup>+}"
      by (auto simp: trancl_power)
  next
    fix v assume "v \<in> {v. (s, v) \<in> (edge_rel G)\<^sup>+}"
    then have "(s, v) \<in> (\<Union>n\<in>{n. 0 < n \<and> n \<le> card (edge_rel G)}. edge_rel G ^^ n)"
      using trancl_finite_eq_relpow[OF finite_edge_rel, of G] by simp
    then obtain n where "0 < n" "n \<le> card (edge_rel G)" "(s, v) \<in> edge_rel G ^^ n" by auto
    with card_edge_rel[of G]
    show "v \<in> (\<Union>k \<in> {k. 0 < k \<and> k \<le> length (edge_tab G)}. {v. (s, v) \<in> edge_rel G ^^ k})"
      by auto
  qed
  finally show ?thesis .
qed

lemma descendants_eq:
  "has_node G s \<Longrightarrow> descendants G s = Inr ({v. (s, v) \<in> (edge_rel G)\<^sup>+} - {s})"
  by (simp add: descendants_def set_reach_list)

lemma descendants_missing: "\<not> has_node G s \<Longrightarrow> descendants G s = Inl NetworkXError"
  by (simp add: descendants_def)

lemma collect_nodes_closed:
  "\<forall>n \<in> set ns. has_node G n \<Longrightarrow> collect_nodes G ns acc = Inr (acc @ map (node_item_of G) ns)"
proof (induction ns arbitrary: acc)
  case Nil
  show ?case by simp
next
  case (Cons n ns)
  then have "has_node G n" by simp
  from nodes_getitem_node[OF this] obtain a where
    "nodes_getitem G n = Inr a" "map_of (node_tab G) n = Some a" by blast
  with Cons show ?case
    by (simp add: node_item_of_def node_attr_def get_default_def)
qed

lemma collect_links_closed:
  "\<forall>e \<in> set es. has_edge G (fst e) (snd e) \<Longrightarrow>
   collect_links G es acc = Inr (acc @ map (link_item_of G) es)"
proof (induction es arbitrary: acc)
  case Nil
  show ?case by simp
next
  case (Cons e es)
  obtain u v where e: "e = (u, v)" by (cases e)
  with Cons.prems obtain a where a: "map_of (edge_tab G) (u, v) = Some a"
    by (auto simp: has_edge_def)
  with Cons e show ?case
    by (simp add: link_item_of_def edge_label_def get_default_def edges_getitem_def)
qed

lemma edges_of_edges: "e \<in> set (edges_of G ns) \<Longrightarrow> has_edge G (fst e) (snd e)"
  by (auto simp: edges_of_def set_successors)

lemma trancl_nodes:
  assumes "wf_digraph G" "(p, v) \<in> (edge_rel G)\<^sup>+"
  shows "has_node G v"
proof -
  from assms(2) obtain y where "(y, v) \<in> edge_rel G" by (auto elim: tranclE)
  then have "has_edge G y v" by (simp add: edge_rel_def)
  with assms(1) show ?thesis
    by (auto intro: predecessors_nodes[where node = v] dest: predecessors_nodes simp: has_edge_iff wf_digraph_def)
qed

lemma subgraph_of_nodes:
  "wf_digraph G \<Longrightarrow> has_node G p \<Longrightarrow> n \<in> subgraph_of G p \<Longrightarrow> has_node G n"
  by (auto simp: subgraph_of_def dest: trancl_nodes)

lemma get_graph_data_closed:
  assumes "wf_digraph G" "has_node G (project_node project_id)"
    and "set (set_iter (subgraph_of G (project_node project_id))) = subgraph_of G (project_node project_id)"
  shows "get_graph_data set_iter G project_id =
    Inr \<lparr>gd_nodes = map (node_item_of G) (set_iter (subgraph_of G (project_node project_id))),
         gd_links = map (link_item_of G)
                      (edges_of G (set_iter (subgraph_of G (project_node project_id))))\<rparr>"
proof -
  let ?P = "project_node project_id"
  have S: "insert ?P ({v. (?P, v) \<in> (edge_rel G)\<^sup>+} - {?P}) = subgraph_of G ?P"
    by (auto simp: subgraph_of_def)
  have n: "\<forall>n \<in> set (set_iter (subgraph_of G ?P)). has_node G n"
    using assms subgraph_of_nodes by blast
  have e: "\<forall>e \<in> set (edges_of G (set_iter (subgraph_of G ?P))). has_edge G (fst e) (snd e)"
    using edges_of_edges by blast
  show ?thesis
    using collect_nodes_closed[OF n, of "[]"] collect_links_closed[OF e, of "[]"]
    by (simp add: get_graph_data_def descendants_eq[OF assms(2)] Let_def subgraph_of_def)
qed

text \<open>
  C8. For every graph and every project id whose project node is not in the graph, the
  subgraph query fails: \<^verbatim>\<open>nx.descendants\<close> raises \<^verbatim>\<open>NetworkXError\<close> (``The node ... is
  not in the graph''), which the handler for \<^verbatim>\<open>NodeNotFound\<close> and \<^verbatim>\<open>KeyError\<close> does not
  catch, so the error reaches the caller and no result is returned.
\<close>

theorem unknown_project_fails:
  "\<not> has_node G (project_node project_id) \<Longrightarrow>
   get_graph_data set_iter G project_id = Inl NetworkXError"
  by (simp add: get_graph_data_def descendants_missing handle_lookup_errors_def)

theorem unknown_project_fails_witness:
  "\<not> has_node (generate_sbom empty_graph 1 ''repo'') (project_node 2) \<and>
   get_graph_data descending (generate_sbom empty_graph 1 ''repo'') 2 = Inl NetworkXError"
proof -
  have h: "\<not> has_node (generate_sbom empty_graph 1 ''repo'') (project_node 2)"
    by code_simp
  from unknown_project_fails[OF h] h show ?thesis by simp
qed

lemma finite_subgraph_of: "finite (subgraph_of G p)"
proof -
  have "finite ((edge_rel G)\<^sup>+)" by (simp add: finite_edge_rel)
  moreover have "{v. (p, v) \<in> (edge_rel G)\<^sup>+} \<subseteq> snd ` (edge_rel G)\<^sup>+" by force
  ultimately have "finite {v. (p, v) \<in> (edge_rel G)\<^sup>+}"
    by (meson finite_imageI finite_subset)
  then show ?thesis by (simp add: subgraph_of_def)
qed

lemma set_descending: "finite S \<Longrightarrow> set (descending S) = S"
  by (simp add: descending_def)

lemma link_pairs: "map (\<lambda>l. (source l, target l)) (map (link_item_of G) es) = es"
  by (induction es) (simp_all add: link_item_of_def)

lemma node_ids: "map node_id (map (node_item_of G) ns) = ns"
  by (induction ns) (simp_all add: node_item_of_def)

text \<open>
  C9 (as amended). For an existing project of a well-formed graph the subgraph query
  returns, and its output is a function of the graph, the project and the order in which
  the runtime iterates the set of subgraph nodes: the node list follows that order, and the
  link list lists, for each node in that order, its out-edges in insertion order. Two calls
  that see the same graph and the same iteration order therefore return identical lists.
  Nothing is sorted.
\<close>

theorem graph_data_in_set_order:
  assumes "wf_digraph G" "has_node G (project_node project_id)"
    and "set (set_iter (subgraph_of G (project_node project_id))) =
         subgraph_of G (project_node project_id)"
  shows "\<exists>d. get_graph_data set_iter G project_id = Inr d \<and>
           gd_nodes d = map (node_item_of G) (set_iter (subgraph_of G (project_node project_id))) \<and>
           gd_links d = map (link_item_of G)
                          (edges_of G (set_iter (subgraph_of G (project_node project_id)))) \<and>
           map node_id (gd_nodes d) = set_iter (subgraph_of G (project_node project_id)) \<and>
           map (\<lambda>l. (source l, target l)) (gd_links d) =
             edges_of G (set_iter (subgraph_of G (project_node project_id)))"
  using get_graph_data_closed[where set_iter = set_iter, OF assms]
  by (simp add: node_ids link_pairs del: map_map)

theorem graph_data_in_set_order_witness:
  "wf_digraph (generate_sbom empty_graph 1 ''repo'') \<and>
   has_node (generate_sbom empty_graph 1 ''repo'') (project_node 1) \<and>
   set (descending (subgraph_of (generate_sbom empty_graph 1 ''repo'') (project_node 1))) =
     subgraph_of (generate_sbom empty_graph 1 ''repo'') (project_node 1) \<and>
   (\<exists>d. get_graph_data descending (generate_sbom empty_graph 1 ''repo'') 1 = Inr d \<and>
       gd_nodes d = map (node_item_of (generate_sbom empty_graph 1 ''repo''))
         (descending (subgraph_of (generate_sbom empty_graph 1 ''repo'') (project_node 1))) \<and>
       gd_links d = map (link_item_of (generate_sbom empty_graph 1 ''repo''))
         (edges_of (generate_sbom empty_graph 1 ''repo'')
            (descending (subgraph_of (generate_sbom empty_graph 1 ''repo'') (project_node 1)))) \<and>
       map node_id (gd_nodes d) =
         descending (subgraph_of (generate_sbom empty_graph 1 ''repo'') (project_node 1)) \<and>
       map (\<lambda>l. (source l, target l)) (gd_links d) =
         edges_of (generate_sbom empty_graph 1 ''repo'')
           (descending (subgraph_of (generate_sbom empty_graph 1 ''repo'') (project_node 1))))"
proof -
  have w: "wf_digraph (generate_sbom empty_graph 1 ''repo'')"
    by code_simp
  have n: "has_node (generate_sbom empty_graph 1 ''repo'') (project_node 1)"
    by code_simp
  have s: "set (descending (subgraph_of (generate_sbom empty_graph 1 ''repo'') (project_node 1))) =
     subgraph_of (generate_sbom empty_graph 1 ''repo'') (project_node 1)"
    by (rule set_descending[OF finite_subgraph_of])
  from graph_data_in_set_order[where set_iter = descending, OF w n s] w n s show ?thesis
    by blast
qed

lemma project_links_unsorted:
  "\<not> sorted (map (Pair (project_node 1))
       (successors (generate_sbom empty_graph 1 ''repo'') (project_node 1)))"
  by code_simp

lemma descending_node_ids:
  "(case get_graph_data descending (generate_sbom empty_graph 1 ''repo'') 1 of
      Inl e \<Rightarrow> None | Inr d \<Rightarrow> Some (map node_id (gd_nodes d))) =
   Some [''werkzeug_2.3.0'', ''vuln_CVE-2023-9012'', ''vuln_CVE-2023-5678'',
         ''vuln_CVE-2023-1234'', ''sqlalchemy_1.4.47'', ''requests_2.28.1'', ''project_1'',
         ''jinja2_3.1.2'', ''flask_2.3.0'']"
  by code_simp

lemma descending_unsorted:
  "\<not> sorted [''werkzeug_2.3.0'', ''vuln_CVE-2023-9012'', ''vuln_CVE-2023-5678'',
         ''vuln_CVE-2023-1234'', ''sqlalchemy_1.4.47'', ''requests_2.28.1'', ''project_1'',
         ''jinja2_3.1.2'', ''flask_2.3.0'']"
  by code_simp

lemma edges_of_append: "edges_of G (xs @ ys) = edges_of G xs @ edges_of G ys"
  by (simp add: edges_of_def)

lemma edges_of_Cons:
  "has_node G n \<Longrightarrow> edges_of G (n # ns) = map (Pair n) (successors G n) @ edges_of G ns"
  by (simp add: edges_of_def)

lemma project_links_never_sorted:
  assumes "set (set_iter (subgraph_of (generate_sbom empty_graph 1 ''repo'') (project_node 1))) =
           subgraph_of (generate_sbom empty_graph 1 ''repo'') (project_node 1)"
    and "get_graph_data set_iter (generate_sbom empty_graph 1 ''repo'') 1 = Inr d"
  shows "\<not> sorted (map (\<lambda>l. (source l, target l)) (gd_links d))"
proof
  let ?G = "generate_sbom empty_graph 1 ''repo''"
  let ?P = "project_node 1"
  assume srt: "sorted (map (\<lambda>l. (source l, target l)) (gd_links d))"
  have w: "wf_digraph ?G" by code_simp
  have n: "has_node ?G ?P" by code_simp
  from get_graph_data_closed[where set_iter = set_iter, OF w n assms(1)] assms(2)
  have "map (\<lambda>l. (source l, target l)) (gd_links d) = edges_of ?G (set_iter (subgraph_of ?G ?P))"
    by (auto simp: link_pairs simp del: map_map)
  with srt have s1: "sorted (edges_of ?G (set_iter (subgraph_of ?G ?P)))" by simp
  have "?P \<in> set (set_iter (subgraph_of ?G ?P))"
    unfolding assms(1) by (simp add: subgraph_of_def)
  then obtain xs ys where "set_iter (subgraph_of ?G ?P) = xs @ ?P # ys"
    by (auto dest: split_list)
  with s1 have "sorted (edges_of ?G xs @ map (Pair ?P) (successors ?G ?P) @ edges_of ?G ys)"
    by (simp add: edges_of_append edges_of_Cons[OF n])
  then have "sorted (map (Pair ?P) (successors ?G ?P))"
    by (simp add: sorted_append)
  with project_links_unsorted show False by simp
qed

text \<open>
  The specification has the output sorted by node id. After one ingestion into the empty
  graph, the descending iteration order (a valid order of the set) yields a node list that
  is not sorted; and whatever order the set is iterated in, the links of the project come
  out in insertion order (\<^verbatim>\<open>requests\<close> before \<^verbatim>\<open>flask\<close>), so the link list is never
  sorted by its node ids.
\<close>

theorem graph_data_unsorted_counterexample:
  "(case get_graph_data descending (generate_sbom empty_graph 1 ''repo'') 1 of
      Inl e \<Rightarrow> None | Inr d \<Rightarrow> Some (map node_id (gd_nodes d))) =
   Some [''werkzeug_2.3.0'', ''vuln_CVE-2023-9012'', ''vuln_CVE-2023-5678'',
         ''vuln_CVE-2023-1234'', ''sqlalchemy_1.4.47'', ''requests_2.28.1'', ''project_1'',
         ''jinja2_3.1.2'', ''flask_2.3.0''] \<and>
   \<not> sorted [''werkzeug_2.3.0'', ''vuln_CVE-2023-9012'', ''vuln_CVE-2023-5678'',
         ''vuln_CVE-2023-1234'', ''sqlalchemy_1.4.47'', ''requests_2.28.1'', ''project_1'',
         ''jinja2_3.1.2'', ''flask_2.3.0''] \<and>
   \<not> (\<exists>set_iter d.
        set (set_iter (subgraph_of (generate_sbom empty_graph 1 ''repo'') (project_node 1))) =
          subgraph_of (generate_sbom empty_graph 1 ''repo'') (project_node 1) \<and>
        get_graph_data set_iter (generate_sbom empty_graph 1 ''repo'') 1 = Inr d \<and>
        sorted (map (\<lambda>l. (source l, target l)) (gd_links d)))"
  using descending_node_ids descending_unsorted project_links_never_sorted by blast

subsection \<open>The upgrade resolver\<close>

lemma cmp_prerelease_tag_key: "cmp_prerelease_tag a b = cmp (ident_key a) (ident_key b)"
  by (cases a; cases b) (auto simp: cmp_def)

lemma cmp_eq_0_iff: "cmp a b = 0 \<longleftrightarrow> a = b"
  by (auto simp: cmp_def)

lemma ident_key_inj: "ident_key a = ident_key b \<longleftrightarrow> a = b"
  by (cases a; cases b) auto

lemma nat_cmp_key: "nat_cmp as bs = cmp (map ident_key as) (map ident_key bs)"
proof (induction as bs rule: nat_cmp.induct)
  case (4 a as b bs)
  show ?case
  proof (cases "cmp_prerelease_tag a b = 0")
    case True
    then have "ident_key a = ident_key b"
      by (simp add: cmp_prerelease_tag_key cmp_eq_0_iff)
    with True 4 show ?thesis by (simp add: cmp_def)
  next
    case False
    then have "ident_key a \<noteq> ident_key b"
      by (simp add: cmp_prerelease_tag_key cmp_eq_0_iff)
    with False show ?thesis
      by (auto simp: cmp_prerelease_tag_key cmp_def)
  qed
qed (simp_all add: cmp_def)

lemma compare_precedence: "compare v w = cmp (precedence v) (precedence w)"
proof (cases "(major v, minor v, patch v) = (major w, minor w, patch w)")
  case False
  then have "cmp (major v, minor v, patch v) (major w, minor w, patch w) \<noteq> 0"
    by (simp only: cmp_eq_0_iff not_False_eq_True)
  with False show ?thesis
    by (auto simp: compare_def precedence_def Let_def cmp_def)
next
  case True
  then have "cmp (major v, minor v, patch v) (major w, minor w, patch w) = 0"
    by (simp only: cmp_eq_0_iff)
  with True show ?thesis
    by (auto simp: compare_def precedence_def Let_def nat_cmp_key split: option.splits)
      (auto simp: cmp_def)
qed

lemma cmp_pos: "0 < cmp a b \<longleftrightarrow> b < a"
  by (auto simp: cmp_def)

lemma semver_compare_parsed:
  "parse a = Some va \<Longrightarrow> parse b = Some vb \<Longrightarrow>
   semver_compare a b = Inr (cmp (precedence va) (precedence vb))"
  by (simp add: semver_compare_def compare_precedence)

lemma semver_compare_gt:
  "parse a = Some va \<Longrightarrow> parse b = Some vb \<Longrightarrow>
   semver_compare a b = Inr c \<Longrightarrow> c > 0 \<longleftrightarrow> precedence vb < precedence va"
  by (auto simp: semver_compare_parsed cmp_pos)

lemma newer_versions_all_parse:
  assumes "parse current = Some vc" "list_all (\<lambda>v. parse v \<noteq> None) vs"
  shows "newer_versions vs current = Inr (filter (\<lambda>v. newer v current) vs)"
  using assms(2)
proof (induction vs)
  case Nil
  show ?case by simp
next
  case (Cons v vs)
  then obtain vv where vv: "parse v = Some vv" by auto
  from Cons have "newer_versions vs current = Inr (filter (\<lambda>v. newer v current) vs)" by simp
  with vv assms(1) show ?case
    by (simp add: semver_compare_parsed newer_def cmp_pos)
qed

lemma newer_versions_bad_candidate:
  "\<not> list_all (\<lambda>v. parse v \<noteq> None) vs \<Longrightarrow> \<exists>e. newer_versions vs current = Inl e"
proof (induction vs)
  case Nil
  then show ?case by simp
next
  case (Cons v vs)
  show ?case
  proof (cases "parse v")
    case None
    then show ?thesis by (simp add: semver_compare_def)
  next
    case (Some vv)
    with Cons obtain e where "newer_versions vs current = Inl e" by auto
    then show ?thesis by (auto split: sum.splits)
  qed
qed

lemma newer_versions_bad_current:
  "parse current = None \<Longrightarrow> newer_versions vs current = (if vs = [] then Inr [] else Inl (case parse (hd vs) of None \<Rightarrow> not_valid (hd vs) | Some v \<Rightarrow> not_valid current))"
  by (cases vs) (auto simp: semver_compare_def split: option.splits)

lemma parse_keys_all_parse:
  "list_all (\<lambda>v. parse v \<noteq> None) ss \<Longrightarrow>
   \<exists>ks. parse_keys ss = Inr ks \<and> map snd ks = ss \<and> (\<forall>k \<in> set ks. parse (snd k) = Some (fst k))"
proof (induction ss)
  case Nil
  show ?case by simp
next
  case (Cons s ss)
  then obtain v ks where "parse s = Some v" "parse_keys ss = Inr ks" "map snd ks = ss"
    "\<forall>k \<in> set ks. parse (snd k) = Some (fst k)" by auto
  then show ?case by simp
qed

lemma sorted_last_max:
  assumes "sorted (map f ys)" "y \<in> set ys"
  shows "f y \<le> f (last ys)"
proof -
  from assms(2) have ne: "ys \<noteq> []" by auto
  from assms(2) obtain i where i: "i < length ys" "ys ! i = y"
    by (auto simp: in_set_conv_nth)
  have "map f ys ! i \<le> map f ys ! (length ys - 1)"
    using assms(1) i(1) by (intro sorted_nth_mono) auto
  with i ne show ?thesis by (simp add: last_conv_nth)
qed

lemma sorted_by_version_max:
  assumes "list_all (\<lambda>v. parse v \<noteq> None) ss" "ss \<noteq> []"
  shows "\<exists>srt. sorted_by_version ss = Inr srt \<and> last srt \<in> set ss \<and>
           (\<forall>s \<in> set ss. \<not> newer s (last srt))"
proof -
  from parse_keys_all_parse[OF assms(1)] obtain ks where ks: "parse_keys ss = Inr ks"
    "map snd ks = ss" "\<forall>k \<in> set ks. parse (snd k) = Some (fst k)" by blast
  let ?srt = "sort_key (\<lambda>k. precedence (fst k)) ks"
  from ks(2) assms(2) have ne: "ks \<noteq> []" by auto
  then have sne: "?srt \<noteq> []" by (metis length_0_conv length_sort)
  have srt: "sorted_by_version ss = Inr (map snd ?srt)"
    by (simp add: sorted_by_version_def ks(1))
  have lst: "last (map snd ?srt) = snd (last ?srt)" using sne by (simp add: last_map)
  have mem: "last ?srt \<in> set ks" using sne by (metis last_in_set set_sort)
  then have "snd (last ?srt) \<in> set ss" using ks(2) by force
  moreover have "\<not> newer s (snd (last ?srt))" if "s \<in> set ss" for s
  proof -
    from that ks(2) obtain k where k: "k \<in> set ks" "snd k = s" by force
    then have "k \<in> set ?srt" by simp
    from sorted_last_max[OF sorted_sort_key this]
    have "precedence (fst k) \<le> precedence (fst (last ?srt))" .
    with k ks(3) mem show ?thesis
      by (auto simp: newer_def split: option.splits)
  qed
  ultimately show ?thesis using srt lst by auto
qed

lemma latest_from_usable:
  assumes "usable current vs"
  shows "\<exists>m. latest_from (Some vs) current = Some m \<and> is_latest current vs m"
proof -
  from assms obtain vc where vc: "parse current = Some vc"
    and ap: "list_all (\<lambda>v. parse v \<noteq> None) vs"
    and ex: "list_ex (\<lambda>v. newer v current) vs"
    by (auto simp: usable_def)
  let ?nv = "filter (\<lambda>v. newer v current) vs"
  from ex have ne: "?nv \<noteq> []" by (auto simp: list_ex_iff filter_empty_conv)
  from ap have ap': "list_all (\<lambda>v. parse v \<noteq> None) ?nv" by (auto simp: list_all_iff)
  from sorted_by_version_max[OF ap' ne] obtain srt where
    srt: "sorted_by_version ?nv = Inr srt" "last srt \<in> set ?nv"
      "\<forall>s \<in> set ?nv. \<not> newer s (last srt)" by blast
  have "latest_from (Some vs) current = Some (last srt)"
    using ne srt(1) by (simp add: latest_from_def newer_versions_all_parse[OF vc ap])
  moreover have "is_latest current vs (last srt)"
    using srt(2,3) by (auto simp: is_latest_def)
  ultimately show ?thesis by blast
qed

lemma latest_from_unusable:
  assumes "\<not> source_ok current response"
  shows "latest_from response current = None"
proof (cases response)
  case None
  then show ?thesis by (simp add: latest_from_def)
next
  case (Some vs)
  with assms have nu: "\<not> usable current vs" by (simp add: source_ok_def)
  show ?thesis
  proof (cases "list_all (\<lambda>v. parse v \<noteq> None) vs")
    case False
    from newer_versions_bad_candidate[OF this, of current] obtain e where
      "newer_versions vs current = Inl e" ..
    with Some show ?thesis
      by (simp add: latest_from_def)
  next
    case True
    show ?thesis
    proof (cases "parse current")
      case None
      with Some show ?thesis
        by (auto simp: latest_from_def newer_versions_bad_current)
    next
      case (Some vc)
      with nu True have "filter (\<lambda>v. newer v current) vs = []"
        by (auto simp: usable_def list_ex_iff filter_empty_conv)
      with \<open>response = Some vs\<close> show ?thesis
        by (simp add: latest_from_def newer_versions_all_parse[OF Some True])
    qed
  qed
qed

lemma is_latest_nonempty: "is_latest current vs m \<Longrightarrow> m \<noteq> []"
proof
  assume "is_latest current vs m" "m = []"
  then have "newer [] current" by (simp add: is_latest_def)
  moreover have "parse [] = None" by code_simp
  ultimately show False by (simp add: newer_def)
qed

lemma parse_Nil: "parse [] = None"
  by code_simp

lemma find_latest_bad_current:
  assumes "parse current = None"
  shows "find_latest_safe_version reg c current = None"
proof -
  have "latest_from r current = None" for r
    by (rule latest_from_unusable) (simp add: source_ok_def usable_def assms split: option.splits)
  then show ?thesis by (simp add: find_latest_safe_version_def)
qed

text \<open>
  C3 (as amended). For every record whose fixed version is set and parses and whose current
  version parses, the check returns feasible with \<^verbatim>\<open>to_version\<close> the fixed version and
  confidence 0.9 if the fixed version has strictly higher precedence than the current one,
  and otherwise infeasible with the reason \<^verbatim>\<open>Fixed version is not newer\<close>.
\<close>

theorem fixed_version_feasibility:
  assumes "fixed_version row = Some fixed" "parse fixed = Some vf"
    and "parse (current_version row) = Some vc"
  shows "check_upgrade_feasibility reg (Some row) =
     (if precedence vc < precedence vf
      then Feasible (component_name row) (current_version row) fixed 0.9
      else Infeasible ''Fixed version is not newer'')"
proof -
  from assms(2) have "fixed \<noteq> []" using parse_Nil by auto
  with assms show ?thesis
    by (simp add: check_upgrade_feasibility_def feasibility_body_def semver_compare_parsed cmp_pos)
qed

theorem fixed_version_feasibility_witness:
  "fixed_version \<lparr>component_name = ''requests'', current_version = ''1.5.0'',
                  fixed_version = Some ''2.0.0''\<rparr> = Some ''2.0.0'' \<and>
   parse ''2.0.0'' = Some \<lparr>major = 2, minor = 0, patch = 0, prerelease = None, build = None\<rparr> \<and>
   parse ''1.5.0'' = Some \<lparr>major = 1, minor = 5, patch = 0, prerelease = None, build = None\<rparr> \<and>
   check_upgrade_feasibility \<lparr>pypi = None, npm = None\<rparr>
     (Some \<lparr>component_name = ''requests'', current_version = ''1.5.0'',
            fixed_version = Some ''2.0.0''\<rparr>) =
   Feasible ''requests'' ''1.5.0'' ''2.0.0'' 0.9"
proof -
  have f: "parse ''2.0.0'' = Some \<lparr>major = 2, minor = 0, patch = 0, prerelease = None, build = None\<rparr>"
    by code_simp
  have c: "parse (current_version \<lparr>component_name = ''requests'', current_version = ''1.5.0'',
                  fixed_version = Some ''2.0.0''\<rparr>) =
           Some \<lparr>major = 1, minor = 5, patch = 0, prerelease = None, build = None\<rparr>"
    by code_simp
  have lt: "precedence \<lparr>major = 1, minor = 5, patch = 0, prerelease = None, build = None\<rparr>
          < precedence \<lparr>major = 2, minor = 0, patch = 0, prerelease = None, build = None\<rparr>"
    by (simp add: precedence_def)
  from fixed_version_feasibility[OF _ f c, of "\<lparr>pypi = None, npm = None\<rparr>"] f c lt
  show ?thesis by simp
qed

text \<open>
  The specification gives the reason as \<^verbatim>\<open>fixed version not newer\<close>; the code's string
  differs.
\<close>

theorem fixed_version_reason_counterexample:
  "check_upgrade_feasibility \<lparr>pypi = None, npm = None\<rparr>
     (Some \<lparr>component_name = ''requests'', current_version = ''1.5.0'',
            fixed_version = Some ''1.0.0''\<rparr>) =
   Infeasible ''Fixed version is not newer'' \<and>
   ''Fixed version is not newer'' \<noteq> ''fixed version not newer''"
  by code_simp

text \<open>
  C6 (as amended). For every record whose current version does not parse, the check returns
  infeasible and raises nothing. The reason is \<^verbatim>\<open>No safe upgrade path found\<close> when no
  fixed version is recorded, and otherwise the parser's message
  \<^verbatim>\<open><version> is not valid SemVer string\<close> for the first version that fails to parse
  (the fixed version is parsed before the current one).
\<close>

theorem unparsable_current_version:
  assumes "parse (current_version row) = None"
  shows "check_upgrade_feasibility reg (Some row) =
     Infeasible
       (case fixed_version row of
          None \<Rightarrow> ''No safe upgrade path found''
        | Some fixed \<Rightarrow>
            if fixed = [] then ''No safe upgrade path found''
            else if parse fixed = None then fixed @ '' is not valid SemVer string''
            else current_version row @ '' is not valid SemVer string'')"
  using assms find_latest_bad_current[OF assms]
  by (auto simp: check_upgrade_feasibility_def feasibility_body_def semver_compare_def
      not_valid_def split: option.splits)

theorem unparsable_current_version_witness:
  "parse (current_version \<lparr>component_name = ''flask'', current_version = ''2.3'',
                           fixed_version = None\<rparr>) = None \<and>
   check_upgrade_feasibility \<lparr>pypi = Some [''2.3.1'', ''3.0.0''], npm = None\<rparr>
     (Some \<lparr>component_name = ''flask'', current_version = ''2.3'', fixed_version = None\<rparr>) =
   Infeasible ''No safe upgrade path found''"
proof -
  have p: "parse (current_version \<lparr>component_name = ''flask'', current_version = ''2.3'',
                           fixed_version = None\<rparr>) = None"
    by code_simp
  from unparsable_current_version[OF p, of "\<lparr>pypi = Some [''2.3.1'', ''3.0.0''], npm = None\<rparr>"] p
  show ?thesis by simp
qed

text \<open>
  The specification gives the reason as exactly \<^verbatim>\<open>unparsable current version\<close>; the
  code reports the text of the caught exception.
\<close>

theorem unparsable_current_reason_counterexample:
  "parse ''1.x'' = None \<and>
   check_upgrade_feasibility \<lparr>pypi = None, npm = None\<rparr>
     (Some \<lparr>component_name = ''requests'', current_version = ''1.x'',
            fixed_version = Some ''2.0.0''\<rparr>) =
   Infeasible ''1.x is not valid SemVer string'' \<and>
   ''1.x is not valid SemVer string'' \<noteq> ''unparsable current version''"
  by code_simp

text \<open>
  C7 (as amended). When no fixed version is recorded, the registries are tried in turn,
  PyPI first and then npm. A registry is used only if it answered, the current version and
  every one of its candidates parse, and some candidate is strictly newer than the current
  version; the result is then feasible with confidence 0.7 and \<^verbatim>\<open>to_version\<close> a maximum
  among that registry's candidates newer than the current version. A registry with an
  unparsable candidate is skipped as a whole. If neither registry is used, the result is
  infeasible with the reason \<^verbatim>\<open>No safe upgrade path found\<close>.
\<close>

theorem latest_safe_version_per_registry:
  assumes "fixed_absent row"
  shows
    "(\<forall>vs. pypi reg = Some vs \<and> usable (current_version row) vs \<longrightarrow>
        (\<exists>m. check_upgrade_feasibility reg (Some row) =
               Feasible (component_name row) (current_version row) m 0.7 \<and>
             is_latest (current_version row) vs m)) \<and>
     (\<forall>vs. \<not> source_ok (current_version row) (pypi reg) \<and> npm reg = Some vs \<and>
            usable (current_version row) vs \<longrightarrow>
        (\<exists>m. check_upgrade_feasibility reg (Some row) =
               Feasible (component_name row) (current_version row) m 0.7 \<and>
             is_latest (current_version row) vs m)) \<and>
     (\<not> source_ok (current_version row) (pypi reg) \<and>
      \<not> source_ok (current_version row) (npm reg) \<longrightarrow>
        check_upgrade_feasibility reg (Some row) = Infeasible ''No safe upgrade path found'')"
proof -
  let ?cur = "current_version row"
  let ?R = "check_upgrade_feasibility reg (Some row)"
  have R: "?R = (case find_latest_safe_version reg (component_name row) ?cur of
                   None \<Rightarrow> Infeasible ''No safe upgrade path found''
                 | Some m \<Rightarrow> if m \<noteq> [] then Feasible (component_name row) ?cur m 0.7
                             else Infeasible ''No safe upgrade path found'')"
    using assms
    by (auto simp: fixed_absent_def check_upgrade_feasibility_def feasibility_body_def
        split: option.splits)
  have a: "\<exists>m. ?R = Feasible (component_name row) ?cur m 0.7 \<and> is_latest ?cur vs m"
    if "pypi reg = Some vs" "usable ?cur vs" for vs
  proof -
    from latest_from_usable[OF that(2)] obtain m where
      m: "latest_from (Some vs) ?cur = Some m" "is_latest ?cur vs m" by blast
    with that(1) is_latest_nonempty[OF m(2)] show ?thesis
      by (auto simp: R find_latest_safe_version_def)
  qed
  have b: "\<exists>m. ?R = Feasible (component_name row) ?cur m 0.7 \<and> is_latest ?cur vs m"
    if "\<not> source_ok ?cur (pypi reg)" "npm reg = Some vs" "usable ?cur vs" for vs
  proof -
    from latest_from_usable[OF that(3)] obtain m where
      m: "latest_from (Some vs) ?cur = Some m" "is_latest ?cur vs m" by blast
    with that(2) latest_from_unusable[OF that(1)] is_latest_nonempty[OF m(2)] show ?thesis
      by (auto simp: R find_latest_safe_version_def)
  qed
  have c: "?R = Infeasible ''No safe upgrade path found''"
    if "\<not> source_ok ?cur (pypi reg)" "\<not> source_ok ?cur (npm reg)"
    using latest_from_unusable[OF that(1)] latest_from_unusable[OF that(2)]
    by (simp add: R find_latest_safe_version_def)
  from a b c show ?thesis by blast
qed

theorem latest_safe_version_per_registry_witness:
  "fixed_absent \<lparr>component_name = ''requests'', current_version = ''1.0.0'',
                 fixed_version = None\<rparr> \<and>
   usable ''1.0.0'' [''0.9.0'', ''1.0.0'', ''1.2.0'', ''1.2.1'', ''2.0.0-rc1''] \<and>
   check_upgrade_feasibility
     \<lparr>pypi = Some [''0.9.0'', ''1.0.0'', ''1.2.0'', ''1.2.1'', ''2.0.0-rc1''], npm = None\<rparr>
     (Some \<lparr>component_name = ''requests'', current_version = ''1.0.0'',
            fixed_version = None\<rparr>) =
   Feasible ''requests'' ''1.0.0'' ''2.0.0-rc1'' 0.7 \<and>
   is_latest ''1.0.0'' [''0.9.0'', ''1.0.0'', ''1.2.0'', ''1.2.1'', ''2.0.0-rc1''] ''2.0.0-rc1''"
proof -
  let ?row = "\<lparr>component_name = ''requests'', current_version = ''1.0.0'',
                 fixed_version = None\<rparr>"
  let ?vs = "[''0.9.0'', ''1.0.0'', ''1.2.0'', ''1.2.1'', ''2.0.0-rc1'']"
  let ?reg = "\<lparr>pypi = Some ?vs, npm = None\<rparr>"
  have fa: "fixed_absent ?row" by (simp add: fixed_absent_def)
  have us: "usable ''1.0.0'' ?vs" by code_simp
  have ev: "check_upgrade_feasibility ?reg (Some ?row) =
            Feasible ''requests'' ''1.0.0'' ''2.0.0-rc1'' 0.7"
    by code_simp
  from latest_safe_version_per_registry[OF fa, of ?reg] us
  obtain m where "check_upgrade_feasibility ?reg (Some ?row) =
      Feasible ''requests'' ''1.0.0'' m 0.7" "is_latest ''1.0.0'' ?vs m"
    by auto
  with ev have "is_latest ''1.0.0'' ?vs ''2.0.0-rc1''" by simp
  with fa us ev show ?thesis by blast
qed

text \<open>
  The specification excludes only the unparsable candidates. Here \<^verbatim>\<open>2.0.0\<close> parses
  and is newer than the current version, and the one unparsable candidate beside it makes
  the search of the registry end without a result.
\<close>

theorem unparsable_candidate_counterexample:
  "parse ''2.0.0'' \<noteq> None \<and> newer ''2.0.0'' ''1.0.0'' \<and> parse ''2.1rc1'' = None \<and>
   check_upgrade_feasibility \<lparr>pypi = Some [''2.0.0'', ''2.1rc1''], npm = None\<rparr>
     (Some \<lparr>component_name = ''requests'', current_version = ''1.0.0'',
            fixed_version = None\<rparr>) =
   Infeasible ''No safe upgrade path found''"
  by code_simp

subsection \<open>Ingestion\<close>


lemma map_of_dict_update:
  "map_of (dict_update a kw) k = (case map_of (rev kw) k of None \<Rightarrow> map_of a k | Some v \<Rightarrow> Some v)"
proof (induction kw arbitrary: a)
  case Nil
  show ?case by (simp add: dict_update_def)
next
  case (Cons p kw)
  obtain k' v' where p: "p = (k', v')" by (cases p)
  have "dict_update a (p # kw) = dict_update (AList.update k' v' a) kw"
    by (simp add: dict_update_def p)
  then show ?case
    by (auto simp: Cons p update_conv' map_add_def split: option.splits)
qed

lemma map_of_rev_distinct:
  "distinct (map fst kw) \<Longrightarrow> (k, v) \<in> set kw \<Longrightarrow> map_of (rev kw) k = Some v"
  by (rule map_of_is_SomeI) (simp_all add: rev_map[symmetric])

lemma map_of_rev_mem: "map_of (rev kw) k = Some v \<Longrightarrow> (k, v) \<in> set kw"
  by (drule map_of_SomeD) simp

lemma dict_update_triv:
  "\<forall>(k, v) \<in> set kw. map_of a k = Some v \<Longrightarrow> dict_update a kw = a"
proof (induction kw)
  case Nil
  show ?case by (simp add: dict_update_def)
next
  case (Cons p kw)
  obtain k v where p: "p = (k, v)" by (cases p)
  with Cons.prems have "AList.update k v a = a" by (simp add: update_triv)
  moreover have "dict_update a (p # kw) = dict_update (AList.update k v a) kw"
    by (simp add: dict_update_def p)
  ultimately show ?case using Cons by simp
qed

lemma map_of_snoc:
  "map_of (xs @ [(m, a)]) n =
     (case map_of xs n of None \<Rightarrow> (if n = m then Some a else None) | Some x \<Rightarrow> Some x)"
  by (induction xs) auto

lemma node_attr_add_node:
  "node_attr (add_node m kw G) n k =
     (if n = m then (case map_of (rev kw) k of None \<Rightarrow> node_attr G m k | Some v \<Rightarrow> Some v)
      else node_attr G n k)"
  by (auto simp: node_attr_def add_node_def dict_get_def map_of_dict_update update_conv'
      map_of_snoc simp del: map_of_append split: option.splits)

lemma has_node_add_node: "has_node (add_node m kw G) n \<longleftrightarrow> n = m \<or> has_node G n"
  by (auto simp: has_node_def add_node_def update_conv' map_of_snoc simp del: map_of_append
      split: option.splits)

lemma edge_tab_add_node [simp]: "edge_tab (add_node m kw G) = edge_tab G"
  by (simp add: add_node_def split: option.splits)

lemma node_attr_ensure_node [simp]: "node_attr (ensure_node m G) n k = node_attr G n k"
  by (auto simp: node_attr_def ensure_node_def has_node_def dict_get_def map_of_snoc
      simp del: map_of_append split: option.splits)

lemma has_node_ensure_node: "has_node (ensure_node m G) n \<longleftrightarrow> n = m \<or> has_node G n"
  by (auto simp: has_node_def ensure_node_def map_of_snoc simp del: map_of_append
      split: option.splits)

lemma edge_tab_ensure_node [simp]: "edge_tab (ensure_node m G) = edge_tab G"
  by (simp add: ensure_node_def)

lemma node_attr_add_edge [simp]: "node_attr (add_edge u v kw G) n k = node_attr G n k"
proof -
  have "node_attr (add_edge u v kw G) n k = node_attr (ensure_node v (ensure_node u G)) n k"
    by (simp add: add_edge_def Let_def node_attr_def)
  then show ?thesis by simp
qed

lemma has_node_add_edge: "has_node (add_edge u v kw G) n \<longleftrightarrow> n = u \<or> n = v \<or> has_node G n"
proof -
  have "has_node (add_edge u v kw G) n = has_node (ensure_node v (ensure_node u G)) n"
    by (simp add: add_edge_def Let_def has_node_def)
  then show ?thesis by (auto simp: has_node_ensure_node)
qed

lemma edge_attr_add_edge:
  "edge_attr (add_edge u v kw G) e k =
     (if e = (u, v) then (case map_of (rev kw) k of None \<Rightarrow> edge_attr G e k | Some x \<Rightarrow> Some x)
      else edge_attr G e k)"
  by (auto simp: edge_attr_def add_edge_def Let_def dict_get_def map_of_dict_update update_conv'
      split: option.splits)

lemma has_edge_add_edge:
  "has_edge (add_edge u v kw G) a b \<longleftrightarrow> (a = u \<and> b = v) \<or> has_edge G a b"
  by (auto simp: has_edge_def add_edge_def Let_def update_conv')

lemma has_edge_add_node [simp]: "has_edge (add_node m kw G) a b = has_edge G a b"
  by (simp add: has_edge_def)

lemma edge_attr_add_node [simp]: "edge_attr (add_node m kw G) e k = edge_attr G e k"
  by (simp add: edge_attr_def)

lemma add_node_stable:
  assumes "has_node G n" "\<forall>(k, v) \<in> set kw. node_attr G n k = Some v"
  shows "add_node n kw G = G"
proof -
  from assms(1) obtain a where a: "map_of (node_tab G) n = Some a"
    by (auto simp: has_node_def)
  with assms(2) have "dict_update a kw = a"
    by (intro dict_update_triv) (auto simp: node_attr_def dict_get_def)
  with a show ?thesis by (simp add: add_node_def update_triv)
qed

lemma ensure_node_stable: "has_node G n \<Longrightarrow> ensure_node n G = G"
  by (simp add: ensure_node_def)

lemma add_edge_stable:
  assumes "has_node G u" "has_node G v" "\<forall>(k, x) \<in> set kw. edge_attr G (u, v) k = Some x"
    and "has_edge G u v"
  shows "add_edge u v kw G = G"
proof -
  from assms(4) obtain a where a: "map_of (edge_tab G) (u, v) = Some a"
    by (auto simp: has_edge_def)
  with assms(3) have "dict_update a kw = a"
    by (intro dict_update_triv) (auto simp: edge_attr_def dict_get_def)
  with a assms(1,2) show ?thesis
    by (simp add: add_edge_def ensure_node_stable update_triv)
qed

lemma evolves_refl: "evolves nf ef G G"
  by (simp add: evolves_def)

lemma evolves_nodeD: "evolves nf ef G H \<Longrightarrow> has_node G n \<Longrightarrow> has_node H n"
  unfolding evolves_def by blast

lemma evolves_edgeD: "evolves nf ef G H \<Longrightarrow> has_edge G u v \<Longrightarrow> has_edge H u v"
  unfolding evolves_def by blast

lemma evolves_node_attrD:
  "evolves nf ef G H \<Longrightarrow> node_attr G n k = Some v \<Longrightarrow>
   \<exists>v'. node_attr H n k = Some v' \<and> (v' = v \<or> nf n k = Some v')"
  unfolding evolves_def by (metis option.exhaust)

lemma evolves_edge_attrD:
  "evolves nf ef G H \<Longrightarrow> edge_attr G e k = Some v \<Longrightarrow>
   \<exists>v'. edge_attr H e k = Some v' \<and> (v' = v \<or> ef e k = Some v')"
  unfolding evolves_def by (metis option.exhaust)

lemma evolvesI:
  assumes "\<And>n. has_node G n \<Longrightarrow> has_node H n"
    and "\<And>u v. has_edge G u v \<Longrightarrow> has_edge H u v"
    and "\<And>n k v. node_attr G n k = Some v \<Longrightarrow>
           \<exists>v'. node_attr H n k = Some v' \<and> (v' = v \<or> nf n k = Some v')"
    and "\<And>e k v. edge_attr G e k = Some v \<Longrightarrow>
           \<exists>v'. edge_attr H e k = Some v' \<and> (v' = v \<or> ef e k = Some v')"
  shows "evolves nf ef G H"
  unfolding evolves_def
proof (intro conjI allI impI)
  fix n k v assume "node_attr G n k = Some v"
  from assms(3)[OF this]
  show "node_attr H n k = Some v \<or> (node_attr H n k \<noteq> None \<and> node_attr H n k = nf n k)"
    by auto
next
  fix e k v assume "edge_attr G e k = Some v"
  from assms(4)[OF this]
  show "edge_attr H e k = Some v \<or> (edge_attr H e k \<noteq> None \<and> edge_attr H e k = ef e k)"
    by auto
qed (use assms(1,2) in blast)+

lemma evolves_trans:
  assumes "evolves nf ef G H" "evolves nf ef H K"
  shows "evolves nf ef G K"
proof (rule evolvesI)
  fix n assume "has_node G n"
  then show "has_node K n" by (intro evolves_nodeD[OF assms(2)] evolves_nodeD[OF assms(1)])
next
  fix u v assume "has_edge G u v"
  then show "has_edge K u v" by (intro evolves_edgeD[OF assms(2)] evolves_edgeD[OF assms(1)])
next
  fix n k v assume "node_attr G n k = Some v"
  from evolves_node_attrD[OF assms(1) this] obtain v' where
    v': "node_attr H n k = Some v'" "v' = v \<or> nf n k = Some v'" by blast
  from evolves_node_attrD[OF assms(2) v'(1)] v'(2)
  show "\<exists>v'. node_attr K n k = Some v' \<and> (v' = v \<or> nf n k = Some v')" by auto
next
  fix e k v assume "edge_attr G e k = Some v"
  from evolves_edge_attrD[OF assms(1) this] obtain v' where
    v': "edge_attr H e k = Some v'" "v' = v \<or> ef e k = Some v'" by blast
  from evolves_edge_attrD[OF assms(2) v'(1)] v'(2)
  show "\<exists>v'. edge_attr K e k = Some v' \<and> (v' = v \<or> ef e k = Some v')" by auto
qed

lemma node_attr_absent: "\<not> has_node G n \<Longrightarrow> node_attr G n k = None"
  by (simp add: has_node_def node_attr_def)

lemma evolves_add_node:
  assumes "\<forall>(k, v) \<in> set kw. nf m k = Some v"
  shows "evolves nf ef G (add_node m kw G)"
proof (rule evolvesI)
  fix n k v assume c: "node_attr G n k = Some v"
  show "\<exists>v'. node_attr (add_node m kw G) n k = Some v' \<and> (v' = v \<or> nf n k = Some v')"
  proof (cases "n = m \<and> map_of (rev kw) k \<noteq> None")
    case True
    then obtain v' where v': "map_of (rev kw) k = Some v'" by auto
    with assms have "nf m k = Some v'" by (auto dest: map_of_rev_mem)
    with True v' show ?thesis by (simp add: node_attr_add_node)
  next
    case False
    with c show ?thesis by (auto simp: node_attr_add_node)
  qed
qed (simp_all add: has_node_add_node)

lemma evolves_add_node_new:
  assumes "\<not> has_node G m"
  shows "evolves nf ef G (add_node m kw G)"
proof (rule evolvesI)
  fix n k v assume c: "node_attr G n k = Some v"
  with assms have "n \<noteq> m" by (auto simp: node_attr_absent)
  with c show "\<exists>v'. node_attr (add_node m kw G) n k = Some v' \<and> (v' = v \<or> nf n k = Some v')"
    by (simp add: node_attr_add_node)
qed (simp_all add: has_node_add_node)

lemma evolves_add_edge:
  assumes "\<forall>(k, x) \<in> set kw. ef (u, v) k = Some x"
  shows "evolves nf ef G (add_edge u v kw G)"
proof (rule evolvesI)
  fix e k x assume c: "edge_attr G e k = Some x"
  show "\<exists>v'. edge_attr (add_edge u v kw G) e k = Some v' \<and> (v' = x \<or> ef e k = Some v')"
  proof (cases "e = (u, v) \<and> map_of (rev kw) k \<noteq> None")
    case True
    then obtain x' where x': "map_of (rev kw) k = Some x'" by auto
    with assms have "ef (u, v) k = Some x'" by (auto dest: map_of_rev_mem)
    with True x' show ?thesis by (simp add: edge_attr_add_edge)
  next
    case False
    with c show ?thesis by (auto simp: edge_attr_add_edge)
  qed
qed (simp_all add: has_node_add_edge has_edge_add_edge)

lemma node_settled_persists:
  assumes "node_settled G n kw" "evolves nf ef G H" "\<forall>(k, v) \<in> set kw. nf n k = Some v"
  shows "node_settled H n kw"
  unfolding node_settled_def
proof (intro conjI ballI)
  from assms(1) show "has_node H n"
    by (auto simp: node_settled_def intro: evolves_nodeD[OF assms(2)])
next
  fix p assume p: "p \<in> set kw"
  obtain k v where kv: "p = (k, v)" by (cases p)
  with p assms(1) have "node_attr G n k = Some v" by (auto simp: node_settled_def)
  from evolves_node_attrD[OF assms(2) this]
  have "node_attr H n k = Some v \<or> node_attr H n k = nf n k" by auto
  moreover from p kv assms(3) have "nf n k = Some v" by auto
  ultimately show "case p of (k, v) \<Rightarrow> node_attr H n k = Some v" using kv by auto
qed

lemma edge_settled_persists:
  assumes "edge_settled G u v kw" "evolves nf ef G H" "\<forall>(k, x) \<in> set kw. ef (u, v) k = Some x"
  shows "edge_settled H u v kw"
  unfolding edge_settled_def
proof (intro conjI ballI)
  from assms(1) show "has_node H u" "has_node H v" "has_edge H u v"
    by (auto simp: edge_settled_def intro: evolves_nodeD[OF assms(2)] evolves_edgeD[OF assms(2)])
next
  fix p assume p: "p \<in> set kw"
  obtain k x where kx: "p = (k, x)" by (cases p)
  with p assms(1) have "edge_attr G (u, v) k = Some x" by (auto simp: edge_settled_def)
  from evolves_edge_attrD[OF assms(2) this]
  have "edge_attr H (u, v) k = Some x \<or> edge_attr H (u, v) k = ef (u, v) k" by auto
  moreover from p kx assms(3) have "ef (u, v) k = Some x" by auto
  ultimately show "case p of (k, x) \<Rightarrow> edge_attr H (u, v) k = Some x" using kx by auto
qed

lemma node_settled_add_node:
  "distinct (map fst kw) \<Longrightarrow> node_settled (add_node n kw G) n kw"
  by (auto simp: node_settled_def has_node_add_node node_attr_add_node map_of_rev_distinct)

lemma edge_settled_add_edge:
  "distinct (map fst kw) \<Longrightarrow> edge_settled (add_edge u v kw G) u v kw"
  by (auto simp: edge_settled_def has_node_add_edge edge_attr_add_edge has_edge_add_edge
      map_of_rev_distinct)

lemma node_settled_stable: "node_settled G n kw \<Longrightarrow> add_node n kw G = G"
  by (simp add: node_settled_def add_node_stable)

lemma edge_settled_stable: "edge_settled G u v kw \<Longrightarrow> add_edge u v kw G = G"
  by (simp add: edge_settled_def add_edge_stable)

lemma foldl_settles:
  assumes step: "\<And>G x. x \<in> set xs \<Longrightarrow> R G (f G x)"
    and est: "\<And>G x. x \<in> set xs \<Longrightarrow> S x (f G x)"
    and pers: "\<And>G H x. x \<in> set xs \<Longrightarrow> S x G \<Longrightarrow> R G H \<Longrightarrow> S x H"
    and refl: "\<And>G. R G G"
    and trans: "\<And>G H K. R G H \<Longrightarrow> R H K \<Longrightarrow> R G K"
  shows "R G (foldl f G xs) \<and> (\<forall>x \<in> set xs. S x (foldl f G xs))"
  using step est pers
proof (induction xs arbitrary: G)
  case Nil
  show ?case by (simp add: refl)
next
  case (Cons x xs)
  have p1: "\<And>G y. y \<in> set xs \<Longrightarrow> R G (f G y)"
    using Cons.prems(1) by simp
  have p2: "\<And>G y. y \<in> set xs \<Longrightarrow> S y (f G y)"
    using Cons.prems(2) by simp
  have p3: "\<And>G H y. y \<in> set xs \<Longrightarrow> S y G \<Longrightarrow> R G H \<Longrightarrow> S y H"
    using Cons.prems(3) by simp
  have ih: "R (f G x) (foldl f (f G x) xs) \<and> (\<forall>y \<in> set xs. S y (foldl f (f G x) xs))"
    by (rule Cons.IH[OF p1 p2 p3])
  have "R G (f G x)" by (rule Cons.prems(1)) simp
  with ih have r: "R G (foldl f (f G x) xs)" using trans by blast
  have sx: "S x (f G x)" by (rule Cons.prems(2)) simp
  have "S x (foldl f (f G x) xs)"
    by (rule Cons.prems(3)[of x "f G x"]) (use sx ih in simp_all)
  with ih r show ?case by simp
qed

lemma foldl_stable: "\<forall>x \<in> set xs. f G x = G \<Longrightarrow> foldl f G xs = G"
  by (induction xs) simp_all

lemma ingest_component_eq:
  "ingest_component proj G c =
     foldl (ingest_vuln (component_node c))
       (add_edge proj (component_node c) [(''relationship'', Str ''DEPENDS_ON'')]
          (add_node (component_node c) (component_attrs c) G))
       (vulnerabilities c)"
  by (simp add: ingest_component_def component_node_def component_attrs_def Let_def)

lemma ingest_eq:
  "ingest G project_id repo_url comps =
     foldl (ingest_component (project_node project_id))
       (add_node (project_node project_id) (project_attrs repo_url) G) comps"
  by (simp add: ingest_def project_attrs_def)

lemma intended_project:
  "(k, v) \<in> set (project_attrs url) \<Longrightarrow> intended_node proj url comps proj k = Some v"
  by (auto simp: intended_node_def project_attrs_def)

lemma compatibleD:
  assumes "compatible proj comps"
  shows "\<And>c. c \<in> set comps \<Longrightarrow> component_node c \<noteq> proj"
    and "\<And>c c'. c \<in> set comps \<Longrightarrow> c' \<in> set comps \<Longrightarrow>
           component_node c = component_node c' \<Longrightarrow> component_attrs c = component_attrs c'"
proof -
  from assms have 1: "\<forall>c \<in> set comps. component_node c \<noteq> proj"
    and 2: "\<forall>c \<in> set comps. \<forall>c' \<in> set comps.
              (if component_node c = component_node c'
               then component_attrs c = component_attrs c' else True)"
    unfolding compatible_def list_all_iff by blast+
  show "\<And>c. c \<in> set comps \<Longrightarrow> component_node c \<noteq> proj" using 1 by blast
  fix c c' assume "c \<in> set comps" "c' \<in> set comps" "component_node c = component_node c'"
  with 2 have "if component_node c = component_node c'
               then component_attrs c = component_attrs c' else True" by blast
  with \<open>component_node c = component_node c'\<close> show "component_attrs c = component_attrs c'"
    by (simp only: if_True)
qed

lemma intended_component:
  assumes "compatible proj comps" "c \<in> set comps" "(k, v) \<in> set (component_attrs c)"
  shows "intended_node proj url comps (component_node c) k = Some v"
proof -
  from compatibleD(1)[OF assms(1,2)] have ne: "component_node c \<noteq> proj" .
  from assms(2) have "find (\<lambda>c'. component_node c' = component_node c) comps \<noteq> None"
    unfolding find_None_iff by blast
  then obtain c' where f: "find (\<lambda>c'. component_node c' = component_node c) comps = Some c'"
    by blast
  from find_SomeD[OF f] have c': "component_node c' = component_node c" "c' \<in> set comps"
    by blast+
  from compatibleD(2)[OF assms(1) c'(2) assms(2) c'(1)]
  have eq: "component_attrs c' = component_attrs c" .
  have "distinct (map fst (component_attrs c))" by (simp add: component_attrs_def)
  from map_of_is_SomeI[OF this assms(3)] have "map_of (component_attrs c) k = Some v" .
  with ne f eq show ?thesis by (simp add: intended_node_def)
qed

lemma intended_depends:
  "(k, x) \<in> set [(''relationship'', Str ''DEPENDS_ON'')] \<Longrightarrow> intended_edge proj (proj, n) k = Some x"
  by (simp add: intended_edge_def)

lemma intended_affected:
  "u \<noteq> proj \<Longrightarrow> (k, x) \<in> set [(''relationship'', Str ''AFFECTED_BY'')] \<Longrightarrow>
   intended_edge proj (u, w) k = Some x"
  by (simp add: intended_edge_def)

lemma evolves_ingest_vuln:
  assumes "nid \<noteq> proj"
  shows "evolves nf (intended_edge proj) G (ingest_vuln nid G x)"
proof -
  let ?G1 = "if \<not> has_node G (''vuln_'' @ x)
             then add_node (''vuln_'' @ x)
                    [(''type'', Str ''vulnerability''), (''id'', Str x),
                     (''severity'', Str (if x = ''CVE-2023-1234'' then ''HIGH'' else ''MEDIUM''))] G
             else G"
  have 1: "evolves nf (intended_edge proj) G ?G1"
  proof (cases "has_node G (''vuln_'' @ x)")
    case True
    then show ?thesis by (simp add: evolves_refl)
  next
    case False
    then show ?thesis using evolves_add_node_new[OF False] by simp
  qed
  have "\<forall>(k, y) \<in> set [(''relationship'', Str ''AFFECTED_BY'')].
          intended_edge proj (nid, ''vuln_'' @ x) k = Some y"
    using assms by (simp add: intended_edge_def)
  then have 2: "evolves nf (intended_edge proj) ?G1
             (add_edge nid (''vuln_'' @ x) [(''relationship'', Str ''AFFECTED_BY'')] ?G1)"
    by (rule evolves_add_edge)
  have "ingest_vuln nid G x = add_edge nid (''vuln_'' @ x) [(''relationship'', Str ''AFFECTED_BY'')] ?G1"
    by (simp add: ingest_vuln_def Let_def)
  with evolves_trans[OF 1 2] show ?thesis by simp
qed

lemma vuln_settled_ingest_vuln: "vuln_settled (ingest_vuln nid G x) nid x"
  by (simp add: vuln_settled_def ingest_vuln_def Let_def has_node_add_edge edge_settled_add_edge)

lemma vuln_settled_stable: "vuln_settled G nid x \<Longrightarrow> ingest_vuln nid G x = G"
  by (simp add: vuln_settled_def ingest_vuln_def Let_def edge_settled_stable)

lemma vuln_settled_persists:
  assumes "vuln_settled G nid x" "evolves nf (intended_edge proj) G H" "nid \<noteq> proj"
  shows "vuln_settled H nid x"
proof -
  from assms(1) have n: "has_node G (''vuln_'' @ x)"
    and e: "edge_settled G nid (''vuln_'' @ x) [(''relationship'', Str ''AFFECTED_BY'')]"
    by (simp_all add: vuln_settled_def)
  have "\<forall>(k, y) \<in> set [(''relationship'', Str ''AFFECTED_BY'')].
          intended_edge proj (nid, ''vuln_'' @ x) k = Some y"
    using assms(3) by (simp add: intended_edge_def)
  from edge_settled_persists[OF e assms(2) this] evolves_nodeD[OF assms(2) n]
  show ?thesis by (simp add: vuln_settled_def)
qed

lemma ingest_vulns_settle:
  assumes "nid \<noteq> proj"
  shows "evolves nf (intended_edge proj) G (foldl (ingest_vuln nid) G xs) \<and>
         (\<forall>x \<in> set xs. vuln_settled (foldl (ingest_vuln nid) G xs) nid x)"
proof (rule foldl_settles)
  show "\<And>G x. evolves nf (intended_edge proj) G (ingest_vuln nid G x)"
    by (rule evolves_ingest_vuln[OF assms])
  show "\<And>G x. vuln_settled (ingest_vuln nid G x) nid x"
    by (rule vuln_settled_ingest_vuln)
  show "\<And>G H x. vuln_settled G nid x \<Longrightarrow> evolves nf (intended_edge proj) G H \<Longrightarrow> vuln_settled H nid x"
    by (rule vuln_settled_persists[OF _ _ assms])
  show "\<And>G. evolves nf (intended_edge proj) G G" by (rule evolves_refl)
  show "\<And>G H K. evolves nf (intended_edge proj) G H \<Longrightarrow> evolves nf (intended_edge proj) H K \<Longrightarrow>
          evolves nf (intended_edge proj) G K"
    by (rule evolves_trans)
qed


lemma component_steps:
  fixes url :: string and G :: digraph
  assumes "compatible proj comps" "c \<in> set comps"
  defines "nf \<equiv> intended_node proj url comps" and "ef \<equiv> intended_edge proj"
  defines "G1 \<equiv> add_node (component_node c) (component_attrs c) G"
  defines "G2 \<equiv> add_edge proj (component_node c) [(''relationship'', Str ''DEPENDS_ON'')] G1"
  shows "evolves nf ef G G1" "evolves nf ef G1 G2" "evolves nf ef G2 (ingest_component proj G c)"
    "\<forall>x \<in> set (vulnerabilities c). vuln_settled (ingest_component proj G c) (component_node c) x"
proof -
  have "\<forall>(k, v) \<in> set (component_attrs c). nf (component_node c) k = Some v"
    using intended_component[OF assms(1,2)] unfolding nf_def by blast
  then show "evolves nf ef G G1" unfolding G1_def by (rule evolves_add_node)
  have "\<forall>(k, x) \<in> set [(''relationship'', Str ''DEPENDS_ON'')]. ef (proj, component_node c) k = Some x"
    unfolding ef_def by (simp add: intended_edge_def)
  then show "evolves nf ef G1 G2" unfolding G2_def by (rule evolves_add_edge)
  have eq: "ingest_component proj G c = foldl (ingest_vuln (component_node c)) G2 (vulnerabilities c)"
    by (simp add: ingest_component_eq G2_def G1_def)
  from compatibleD(1)[OF assms(1,2)] have ne: "component_node c \<noteq> proj" .
  from ingest_vulns_settle[OF ne, of nf G2 "vulnerabilities c"]
  show "evolves nf ef G2 (ingest_component proj G c)"
    "\<forall>x \<in> set (vulnerabilities c). vuln_settled (ingest_component proj G c) (component_node c) x"
    unfolding eq ef_def by blast+
qed

lemma evolves_ingest_component:
  assumes "compatible proj comps" "c \<in> set comps"
  shows "evolves (intended_node proj url comps) (intended_edge proj) G (ingest_component proj G c)"
  using component_steps(1-3)[where url = url and G = G, OF assms] by (blast intro: evolves_trans)

lemma component_settled_ingest_component:
  assumes "compatible proj comps" "c \<in> set comps"
  shows "component_settled (ingest_component proj G c) proj c"
proof -
  let ?nf = "intended_node proj url comps" and ?ef = "intended_edge proj"
  let ?G1 = "add_node (component_node c) (component_attrs c) G"
  let ?G2 = "add_edge proj (component_node c) [(''relationship'', Str ''DEPENDS_ON'')] ?G1"
  let ?G3 = "ingest_component proj G c"
  note st = component_steps(1-3)[where url = url and G = G, OF assms]
    component_steps(4)[where G = G, OF assms]
  have nfc: "\<forall>(k, v) \<in> set (component_attrs c). ?nf (component_node c) k = Some v"
    using intended_component[OF assms] by blast
  have efd: "\<forall>(k, x) \<in> set [(''relationship'', Str ''DEPENDS_ON'')].
               ?ef (proj, component_node c) k = Some x"
    by (simp add: intended_edge_def)
  have "node_settled ?G1 (component_node c) (component_attrs c)"
    by (rule node_settled_add_node) (simp add: component_attrs_def)
  from node_settled_persists[OF this evolves_trans[OF st(2) st(3)] nfc]
  have n: "node_settled ?G3 (component_node c) (component_attrs c)" .
  have "edge_settled ?G2 proj (component_node c) [(''relationship'', Str ''DEPENDS_ON'')]"
    by (rule edge_settled_add_edge) simp
  from edge_settled_persists[OF this st(3) efd]
  have e: "edge_settled ?G3 proj (component_node c) [(''relationship'', Str ''DEPENDS_ON'')]" .
  from n e st(4) show ?thesis by (simp add: component_settled_def)
qed

lemma component_settled_stable:
  assumes "component_settled G proj c"
  shows "ingest_component proj G c = G"
proof -
  from assms have n: "add_node (component_node c) (component_attrs c) G = G"
    and e: "add_edge proj (component_node c) [(''relationship'', Str ''DEPENDS_ON'')] G = G"
    and v: "\<forall>x \<in> set (vulnerabilities c). ingest_vuln (component_node c) G x = G"
    by (simp_all add: component_settled_def node_settled_stable edge_settled_stable
        vuln_settled_stable)
  from foldl_stable[where f = "ingest_vuln (component_node c)", OF v] n e show ?thesis
    by (simp add: ingest_component_eq)
qed

lemma component_settled_persists:
  assumes "compatible proj comps" "c \<in> set comps" "component_settled G proj c"
    and "evolves (intended_node proj url comps) (intended_edge proj) G H"
  shows "component_settled H proj c"
proof -
  from assms(3) have n: "node_settled G (component_node c) (component_attrs c)"
    and e: "edge_settled G proj (component_node c) [(''relationship'', Str ''DEPENDS_ON'')]"
    and v: "\<forall>x \<in> set (vulnerabilities c). vuln_settled G (component_node c) x"
    by (simp_all add: component_settled_def)
  have nfc: "\<forall>(k, v) \<in> set (component_attrs c).
               intended_node proj url comps (component_node c) k = Some v"
    using intended_component[OF assms(1,2)] by blast
  have efd: "\<forall>(k, x) \<in> set [(''relationship'', Str ''DEPENDS_ON'')].
               intended_edge proj (proj, component_node c) k = Some x"
    by (simp add: intended_edge_def)
  from compatibleD(1)[OF assms(1,2)] have ne: "component_node c \<noteq> proj" .
  have "\<forall>x \<in> set (vulnerabilities c). vuln_settled H (component_node c) x"
    using v vuln_settled_persists[OF _ assms(4) ne] by blast
  with node_settled_persists[OF n assms(4) nfc] edge_settled_persists[OF e assms(4) efd]
  show ?thesis by (simp add: component_settled_def)
qed

lemma ingest_settles:
  fixes G :: digraph and repo_url :: string
  assumes "compatible (project_node project_id) comps"
  defines "H \<equiv> ingest G project_id repo_url comps"
  shows "node_settled H (project_node project_id) (project_attrs repo_url)"
    and "\<forall>c \<in> set comps. component_settled H (project_node project_id) c"
proof -
  let ?P = "project_node project_id"
  let ?nf = "intended_node ?P repo_url comps" and ?ef = "intended_edge ?P"
  let ?G0 = "add_node ?P (project_attrs repo_url) G"
  have H: "H = foldl (ingest_component ?P) ?G0 comps" by (simp add: H_def ingest_eq)
  have fs: "evolves ?nf ?ef ?G0 (foldl (ingest_component ?P) ?G0 comps) \<and>
        (\<forall>c \<in> set comps. component_settled (foldl (ingest_component ?P) ?G0 comps) ?P c)"
  proof (rule foldl_settles[where R = "evolves ?nf ?ef" and S = "\<lambda>c G. component_settled G ?P c"])
    show "\<And>G c. c \<in> set comps \<Longrightarrow> evolves ?nf ?ef G (ingest_component ?P G c)"
      by (rule evolves_ingest_component[OF assms(1)])
    show "\<And>G c. c \<in> set comps \<Longrightarrow> component_settled (ingest_component ?P G c) ?P c"
      by (rule component_settled_ingest_component[OF assms(1)])
    show "\<And>G H c. c \<in> set comps \<Longrightarrow> component_settled G ?P c \<Longrightarrow> evolves ?nf ?ef G H \<Longrightarrow>
            component_settled H ?P c"
      by (rule component_settled_persists[OF assms(1)])
    show "\<And>G. evolves ?nf ?ef G G" by (rule evolves_refl)
    show "\<And>G H K. evolves ?nf ?ef G H \<Longrightarrow> evolves ?nf ?ef H K \<Longrightarrow> evolves ?nf ?ef G K"
      by (rule evolves_trans)
  qed
  then show "\<forall>c \<in> set comps. component_settled H ?P c" by (simp add: H)
  have "node_settled ?G0 ?P (project_attrs repo_url)"
    by (rule node_settled_add_node) (simp add: project_attrs_def)
  moreover have "\<forall>(k, v) \<in> set (project_attrs repo_url). ?nf ?P k = Some v"
    using intended_project by blast
  ultimately show "node_settled H ?P (project_attrs repo_url)"
    using fs unfolding H by (blast intro: node_settled_persists)
qed

lemma settled_ingest_stable:
  assumes "node_settled H (project_node project_id) (project_attrs repo_url)"
    and "\<forall>c \<in> set comps. component_settled H (project_node project_id) c"
  shows "ingest H project_id repo_url comps = H"
proof -
  from assms(1) have "add_node (project_node project_id) (project_attrs repo_url) H = H"
    by (rule node_settled_stable)
  moreover have "foldl (ingest_component (project_node project_id)) H comps = H"
    by (rule foldl_stable) (use assms(2) in \<open>simp add: component_settled_stable\<close>)
  ultimately show ?thesis by (simp add: ingest_eq)
qed

lemma ingest_idempotent:
  assumes "compatible (project_node project_id) comps"
  shows "ingest (ingest G project_id repo_url comps) project_id repo_url comps =
         ingest G project_id repo_url comps"
  by (rule settled_ingest_stable) (rule ingest_settles[OF assms])+

lemma components_compatible: "compatible (project_node project_id) components"
  by (simp add: compatible_def components_def component_node_def component_attrs_def
      project_node_def)

text \<open>
  C4. For every graph, project id and repository URL, calling \<^verbatim>\<open>generate_sbom\<close> a second
  time with the same arguments leaves the graph exactly as the first call left it: the same
  nodes and edges in the same order with the same attributes, so no node and no edge is
  duplicated. The same holds for the ingestion loop run on any component list whose node
  ids are distinct from the project node and determine the component's attributes.
\<close>

theorem ingestion_idempotent:
  "generate_sbom (generate_sbom G project_id repo_url) project_id repo_url =
     generate_sbom G project_id repo_url \<and>
   (compatible (project_node project_id) comps \<longrightarrow>
      ingest (ingest G project_id repo_url comps) project_id repo_url comps =
        ingest G project_id repo_url comps)"
  using ingest_idempotent[OF components_compatible] ingest_idempotent[of project_id comps]
  by (simp add: generate_sbom_def)

theorem ingestion_idempotent_witness:
  "compatible (project_node 7)
     [\<lparr>name = ''requests'', version = ''2.28.1'', ctype = ''library'',
       vulnerabilities = [''CVE-2023-1234'', ''CVE-2023-5678'']\<rparr>,
      \<lparr>name = ''urllib3'', version = ''1.26.0'', ctype = ''library'',
       vulnerabilities = [''CVE-2023-5678'']\<rparr>,
      \<lparr>name = ''requests'', version = ''2.28.1'', ctype = ''library'',
       vulnerabilities = [''CVE-2023-1234'', ''CVE-2023-5678'']\<rparr>] \<and>
   generate_sbom (generate_sbom empty_graph 7 ''repo'') 7 ''repo'' =
     generate_sbom empty_graph 7 ''repo'' \<and>
   ingest (ingest (generate_sbom empty_graph 7 ''repo'') 7 ''repo''
     [\<lparr>name = ''requests'', version = ''2.28.1'', ctype = ''library'',
       vulnerabilities = [''CVE-2023-1234'', ''CVE-2023-5678'']\<rparr>,
      \<lparr>name = ''urllib3'', version = ''1.26.0'', ctype = ''library'',
       vulnerabilities = [''CVE-2023-5678'']\<rparr>,
      \<lparr>name = ''requests'', version = ''2.28.1'', ctype = ''library'',
       vulnerabilities = [''CVE-2023-1234'', ''CVE-2023-5678'']\<rparr>]) 7 ''repo''
     [\<lparr>name = ''requests'', version = ''2.28.1'', ctype = ''library'',
       vulnerabilities = [''CVE-2023-1234'', ''CVE-2023-5678'']\<rparr>,
      \<lparr>name = ''urllib3'', version = ''1.26.0'', ctype = ''library'',
       vulnerabilities = [''CVE-2023-5678'']\<rparr>,
      \<lparr>name = ''requests'', version = ''2.28.1'', ctype = ''library'',
       vulnerabilities = [''CVE-2023-1234'', ''CVE-2023-5678'']\<rparr>] =
   ingest (generate_sbom empty_graph 7 ''repo'') 7 ''repo''
     [\<lparr>name = ''requests'', version = ''2.28.1'', ctype = ''library'',
       vulnerabilities = [''CVE-2023-1234'', ''CVE-2023-5678'']\<rparr>,
      \<lparr>name = ''urllib3'', version = ''1.26.0'', ctype = ''library'',
       vulnerabilities = [''CVE-2023-5678'']\<rparr>,
      \<lparr>name = ''requests'', version = ''2.28.1'', ctype = ''library'',
       vulnerabilities = [''CVE-2023-1234'', ''CVE-2023-5678'']\<rparr>]"
proof -
  let ?comps = "[\<lparr>name = ''requests'', version = ''2.28.1'', ctype = ''library'',
       vulnerabilities = [''CVE-2023-1234'', ''CVE-2023-5678'']\<rparr>,
      \<lparr>name = ''urllib3'', version = ''1.26.0'', ctype = ''library'',
       vulnerabilities = [''CVE-2023-5678'']\<rparr>,
      \<lparr>name = ''requests'', version = ''2.28.1'', ctype = ''library'',
       vulnerabilities = [''CVE-2023-1234'', ''CVE-2023-5678'']\<rparr>]"
  have c: "compatible (project_node 7) ?comps"
    by code_simp
  from ingestion_idempotent[of empty_graph 7 "''repo''" ?comps]
    ingestion_idempotent[of "generate_sbom empty_graph 7 ''repo''" 7 "''repo''" ?comps] c
  show ?thesis by simp
qed

subsection \<open>The data model is an invariant of ingestion\<close>

text \<open>
  The empty graph conforms to the data model, and \<^verbatim>\<open>generate_sbom\<close> keeps a conforming
  graph conforming: every graph that the program builds satisfies the hypothesis of the
  reachability theorem.
\<close>

lemma set_update_cases: "e \<in> set (AList.update k v al) \<Longrightarrow> e = (k, v) \<or> e \<in> set al"
  by (induction al) (auto split: if_splits)

lemma conforms_iff:
  "conforms G \<longleftrightarrow>
     (\<forall>n. has_node G n \<longrightarrow> conforms_node G n) \<and> (\<forall>e \<in> set (edge_tab G). conforms_edge G e)"
  by (auto simp: conforms_def list_all_iff has_node_iff)

lemma conforms_empty: "conforms empty_graph"
  by (simp add: conforms_def empty_graph_def nodes_def)

lemma conforms_add_node:
  assumes "conforms G" "map_of (rev kw) ''type'' = Some (Str (kind_of m))"
    and "kind_of m = ''vulnerability'' \<Longrightarrow> map_of (rev kw) ''id'' = Some (Str (drop 5 m))"
  shows "conforms (add_node m kw G)"
  unfolding conforms_iff
proof (intro conjI allI impI ballI)
  fix n assume "has_node (add_node m kw G) n"
  then have n: "n = m \<or> has_node G n" by (simp add: has_node_add_node)
  show "conforms_node (add_node m kw G) n"
  proof (cases "n = m")
    case True
    with assms(2,3) show ?thesis
      by (simp add: conforms_node_def node_attr_add_node)
  next
    case False
    with n assms(1) have "conforms_node G n" by (simp add: conforms_iff)
    with False show ?thesis by (simp add: conforms_node_def node_attr_add_node)
  qed
next
  fix e assume "e \<in> set (edge_tab (add_node m kw G))"
  with assms(1) have "conforms_edge G e" by (simp add: conforms_iff)
  then show "conforms_edge (add_node m kw G) e"
    by (auto simp: conforms_edge_def has_node_add_node)
qed

lemma conforms_add_edge:
  assumes "conforms G" "has_node G u" "has_node G v"
    and "kind_of u = ''project'' \<and> kind_of v = ''component'' \<and> l = ''DEPENDS_ON'' \<or>
         kind_of u = ''component'' \<and> kind_of v = ''vulnerability'' \<and> l = ''AFFECTED_BY''"
  shows "conforms (add_edge u v [(''relationship'', Str l)] G)"
  unfolding conforms_iff
proof (intro conjI allI impI ballI)
  let ?H = "add_edge u v [(''relationship'', Str l)] G"
  fix n assume "has_node ?H n"
  with assms(2,3) have "has_node G n" by (auto simp: has_node_add_edge)
  with assms(1) have "conforms_node G n" by (simp add: conforms_iff)
  then show "conforms_node ?H n" by (simp add: conforms_node_def)
next
  let ?H = "add_edge u v [(''relationship'', Str l)] G"
  let ?old = "case map_of (edge_tab G) (u, v) of None \<Rightarrow> [] | Some a \<Rightarrow> a"
  fix e assume e: "e \<in> set (edge_tab ?H)"
  have "edge_tab ?H =
        AList.update (u, v) (dict_update ?old [(''relationship'', Str l)]) (edge_tab G)"
    using assms(2,3) by (simp add: add_edge_def ensure_node_stable)
  with e have "e = ((u, v), dict_update ?old [(''relationship'', Str l)]) \<or> e \<in> set (edge_tab G)"
    by (auto dest: set_update_cases)
  then show "conforms_edge ?H e"
  proof
    assume "e = ((u, v), dict_update ?old [(''relationship'', Str l)])"
    with assms(2-4) show ?thesis
      by (auto simp: conforms_edge_def has_node_add_edge dict_get_def map_of_dict_update)
  next
    assume "e \<in> set (edge_tab G)"
    with assms(1) have "conforms_edge G e" by (simp add: conforms_iff)
    then show ?thesis by (auto simp: conforms_edge_def has_node_add_edge)
  qed
qed

lemma conforms_has_node_add_node: "has_node G n \<Longrightarrow> has_node (add_node m kw G) n"
  by (simp add: has_node_add_node)

lemma kind_of_vuln_node: "kind_of (''vuln_'' @ x) = ''vulnerability''"
  by (simp add: kind_of_def)

lemma conforms_ingest_vuln:
  assumes "conforms G" "has_node G nid" "kind_of nid = ''component''"
  shows "conforms (ingest_vuln nid G x) \<and> (\<forall>n. has_node G n \<longrightarrow> has_node (ingest_vuln nid G x) n)"
proof -
  let ?vn = "''vuln_'' @ x"
  let ?kw = "[(''type'', Str ''vulnerability''), (''id'', Str x),
              (''severity'', Str (if x = ''CVE-2023-1234'' then ''HIGH'' else ''MEDIUM''))]"
  let ?G1 = "if \<not> has_node G ?vn then add_node ?vn ?kw G else G"
  have c1: "conforms ?G1"
  proof (cases "has_node G ?vn")
    case True
    with assms(1) show ?thesis by simp
  next
    case False
    have "conforms (add_node ?vn ?kw G)"
      by (rule conforms_add_node[OF assms(1)]) (simp_all add: kind_of_def)
    with False show ?thesis by simp
  qed
  have n1: "has_node ?G1 nid" "has_node ?G1 ?vn"
    using assms(2) by (auto simp: has_node_add_node)
  have k: "kind_of ?vn = ''vulnerability''" by (simp add: kind_of_def)
  have "conforms (add_edge nid ?vn [(''relationship'', Str ''AFFECTED_BY'')] ?G1)"
    by (rule conforms_add_edge[OF c1 n1]) (use assms(3) k in simp)
  moreover have "ingest_vuln nid G x = add_edge nid ?vn [(''relationship'', Str ''AFFECTED_BY'')] ?G1"
    by (simp add: ingest_vuln_def Let_def)
  moreover have "\<forall>n. has_node G n \<longrightarrow>
      has_node (add_edge nid ?vn [(''relationship'', Str ''AFFECTED_BY'')] ?G1) n"
    by (auto simp: has_node_add_edge has_node_add_node)
  ultimately show ?thesis by simp
qed

lemma conforms_ingest_vulns:
  assumes "conforms G" "has_node G nid" "kind_of nid = ''component''"
  shows "conforms (foldl (ingest_vuln nid) G xs) \<and>
         (\<forall>n. has_node G n \<longrightarrow> has_node (foldl (ingest_vuln nid) G xs) n)"
  using assms(1,2)
proof (induction xs arbitrary: G)
  case Nil
  then show ?case by simp
next
  case (Cons x xs)
  from conforms_ingest_vuln[OF Cons.prems assms(3), of x]
  have 1: "conforms (ingest_vuln nid G x)" "\<forall>n. has_node G n \<longrightarrow> has_node (ingest_vuln nid G x) n"
    by blast+
  with Cons.prems(2) have 2: "has_node (ingest_vuln nid G x) nid" by blast
  from Cons.IH[OF 1(1) 2] 1(2) show ?case by simp
qed

lemma conforms_ingest_component:
  assumes "conforms G" "has_node G proj" "kind_of proj = ''project''"
    and "kind_of (component_node c) = ''component''"
  shows "conforms (ingest_component proj G c) \<and>
         (\<forall>n. has_node G n \<longrightarrow> has_node (ingest_component proj G c) n)"
proof -
  let ?cn = "component_node c"
  let ?G1 = "add_node ?cn (component_attrs c) G"
  let ?G2 = "add_edge proj ?cn [(''relationship'', Str ''DEPENDS_ON'')] ?G1"
  have c1: "conforms ?G1"
    by (rule conforms_add_node[OF assms(1)]) (simp_all add: component_attrs_def assms(4))
  have n1: "has_node ?G1 proj" "has_node ?G1 ?cn"
    using assms(2) by (simp_all add: has_node_add_node)
  have c2: "conforms ?G2"
    by (rule conforms_add_edge[OF c1 n1]) (use assms(3,4) in simp)
  have n2: "has_node ?G2 ?cn" by (simp add: has_node_add_edge)
  from conforms_ingest_vulns[OF c2 n2 assms(4), of "vulnerabilities c"]
  show ?thesis
    by (auto simp: ingest_component_eq has_node_add_edge has_node_add_node)
qed

lemma conforms_ingest_components:
  assumes "conforms G" "has_node G proj" "kind_of proj = ''project''"
    and "\<forall>c \<in> set comps. kind_of (component_node c) = ''component''"
  shows "conforms (foldl (ingest_component proj) G comps)"
  using assms(1,2,4)
proof (induction comps arbitrary: G)
  case Nil
  then show ?case by simp
next
  case (Cons c comps)
  then have k: "kind_of (component_node c) = ''component''" by simp
  from conforms_ingest_component[OF Cons.prems(1,2) assms(3) k]
  have 1: "conforms (ingest_component proj G c)" "has_node (ingest_component proj G c) proj"
    using Cons.prems(2) by blast+
  from Cons.IH[OF 1] Cons.prems(3) show ?case by simp
qed

lemma conforms_ingest:
  assumes "conforms G" "\<forall>c \<in> set comps. kind_of (component_node c) = ''component''"
  shows "conforms (ingest G project_id repo_url comps)"
proof -
  let ?P = "project_node project_id"
  have "conforms (add_node ?P (project_attrs repo_url) G)"
    by (rule conforms_add_node[OF assms(1)]) (simp_all add: project_attrs_def)
  moreover have "has_node (add_node ?P (project_attrs repo_url) G) ?P"
    by (simp add: has_node_add_node)
  ultimately show ?thesis
    using conforms_ingest_components[OF _ _ _ assms(2), of _ ?P]
    by (simp add: ingest_eq)
qed

lemma conforms_generate_sbom:
  "conforms G \<Longrightarrow> conforms (generate_sbom G project_id repo_url)"
  unfolding generate_sbom_def
  by (rule conforms_ingest) (simp_all add: components_def component_node_def kind_of_def)

subsection \<open>The snapshot file\<close>

text \<open>
  C5 (as amended). The save operation opens the snapshot file in place, which truncates it,
  and then writes the pickled graph into it: there is no temporary file and no atomic
  replace. Once a save has completed, the file holds the complete new snapshot and loading
  it returns the saved graph. Between the two effects the file on disk is cut short, so a
  save that is interrupted there leaves a file that is neither the previous snapshot nor
  the new one, and loading it fails.
\<close>

theorem save_truncates_then_writes:
  "save_graph_states G d = [d(graph_file \<mapsto> Truncated), d(graph_file \<mapsto> Snapshot G)] \<and>
   save_graph G d = d(graph_file \<mapsto> Snapshot G) \<and>
   load_graph (save_graph G d) G' = Inr G \<and>
   load_graph (hd (save_graph_states G d)) G' = Inl EOFError"
  by (simp add: save_graph_def save_graph_states_def open_wb_def pickle_dump_def load_graph_def)

text \<open>
  The specification has every state of the disk during a save hold either the complete
  previous snapshot or the complete new one. Saving the graph after a second ingestion over
  the snapshot of the first passes through a state in which the file is neither.
\<close>

theorem save_not_atomic_counterexample:
  "map (\<lambda>s. s graph_file)
     (save_graph_states
        (generate_sbom (generate_sbom empty_graph 1 ''repo'') 2 ''repo'')
        ((\<lambda>p. None)(graph_file \<mapsto> Snapshot (generate_sbom empty_graph 1 ''repo'')))) =
   [Some Truncated,
    Some (Snapshot (generate_sbom (generate_sbom empty_graph 1 ''repo'') 2 ''repo''))] \<and>
   Truncated \<noteq> Snapshot (generate_sbom empty_graph 1 ''repo'') \<and>
   Truncated \<noteq> Snapshot (generate_sbom (generate_sbom empty_graph 1 ''repo'') 2 ''repo'')"
  by (simp add: save_graph_states_def open_wb_def pickle_dump_def)

subsection \<open>The unused argument\<close>

text \<open>
  C10. For every graph, project id and pair of values of the \<^verbatim>\<open>vulnerable_component\<close>
  argument, \<^verbatim>\<open>query_reachable_vulnerabilities\<close> returns the same result: the argument is
  never read.
\<close>

theorem query_ignores_vulnerable_component:
  "query_reachable_vulnerabilities G project_id vc1 =
   query_reachable_vulnerabilities G project_id vc2"
  by (simp add: query_reachable_vulnerabilities_def)

end
